theory Spec2Isabelle
  imports Complex_Main "HOL-Library.Multiset"
begin

section \<open>Grid-based metadynamics bias of Ensembler (biasOneD.py, perturbed_system.py)\<close>

text \<open>
  Numbers of the Python source are floats; they are modelled by reals. The sums of the
  read path and of the depositions are taken exactly, so the statements about them are
  about the arithmetic the code asks for, not about rounding. The one comparison of
  computed numbers that decides a branch, the comparison of the two distances in
  \<open>_find_nearest\<close>, is modelled with the float64 rounding of the two subtractions.
  Integers of the source (\<open>n_trigger\<close>, \<open>current_n\<close>, \<open>finished_steps\<close>,
  \<open>numbins\<close>) are Python's unbounded ints, modelled by \<open>int\<close>; array indices that the
  code only ever produces non-negative are \<open>nat\<close>.
\<close>

subsection \<open>Exceptions\<close>

text \<open>
  The exceptions the modelled code can raise, and the two exception classes named by the
  specification (\<open>InvalidConfigurationError\<close>, \<open>InvalidRangeError\<close>), which occur nowhere
  in the source.
\<close>

datatype error =
    ZeroDivisionError
  | ValueError
  | IndexError
  | NameError
  | InvalidConfigurationError
  | InvalidRangeError

text \<open>Raising operations in sequence: the first exception ends the computation.\<close>

definition bind_err :: "error + 'a \<Rightarrow> ('a \<Rightarrow> error + 'b) \<Rightarrow> error + 'b" where
  "bind_err m f = (case m of Inl e \<Rightarrow> Inl e | Inr a \<Rightarrow> f a)"

subsection \<open>NumPy values: scalars and one-dimensional arrays\<close>

datatype pyval = Scalar real | Seq "real list"

text \<open>\<open>np.squeeze\<close> removes axes of length one: a one-element array becomes a scalar.\<close>

fun squeeze :: "pyval \<Rightarrow> pyval" where
  "squeeze (Scalar x) = Scalar x"
| "squeeze (Seq [x]) = Scalar x"
| "squeeze (Seq xs) = Seq xs"

text \<open>A lambdified function of one variable applied to a scalar or elementwise to an array.\<close>

fun vectorized :: "(real \<Rightarrow> real) \<Rightarrow> pyval \<Rightarrow> pyval" where
  "vectorized f (Scalar x) = Scalar (f x)"
| "vectorized f (Seq xs) = Seq (map f xs)"

text \<open>
  \<open>a + b\<close> on NumPy values with broadcasting: a scalar or a one-element array is
  stretched over the other operand; two arrays of different lengths, neither of length
  one, raise \<open>ValueError\<close>. First for two one-dimensional arrays, then for all values.
\<close>

definition add_arrays :: "real list \<Rightarrow> real list \<Rightarrow> error + real list" where
  "add_arrays xs ys =
     (if length xs = length ys then Inr (map2 (+) xs ys)
      else if length xs = 1 then Inr (map (\<lambda>y. hd xs + y) ys)
      else if length ys = 1 then Inr (map (\<lambda>x. x + hd ys) xs)
      else Inl ValueError)"

fun np_add :: "pyval \<Rightarrow> pyval \<Rightarrow> error + pyval" where
  "np_add (Scalar a) (Scalar b) = Inr (Scalar (a + b))"
| "np_add (Scalar a) (Seq ys) = Inr (Seq (map (\<lambda>y. a + y) ys))"
| "np_add (Seq xs) (Scalar b) = Inr (Seq (map (\<lambda>x. x + b) xs))"
| "np_add (Seq xs) (Seq ys) = bind_err (add_arrays xs ys) (\<lambda>zs. Inr (Seq zs))"

text \<open>
  \<open>np.linspace(start, stop, num)\<close> for \<open>num \<ge> 0\<close>: \<open>num\<close> evenly spaced samples
  with both end points included; a single sample is \<open>start\<close>.
\<close>

definition linspace :: "real \<Rightarrow> real \<Rightarrow> nat \<Rightarrow> real list" where
  "linspace start stop num =
     (if num = 1 then [start]
      else map (\<lambda>i. start + real i * ((stop - start) / real (num - 1))) [0..<num])"

subsection \<open>Rounding to float64\<close>

text \<open>
  The result of a float64 operation is the exact result rounded to the nearest float64
  number, ties to the one with an even significand. Float64 numbers are sign and
  magnitude; a magnitude \<open>y\<close> with \<open>2^e \<le> y < 2^(e+1)\<close> lies on the grid of
  multiples of \<open>2^(e-52)\<close> (53 significant bits), but never on a finer grid than
  that of the multiples of \<open>2^(-1074)\<close> (the subnormal numbers). What rounds to
  \<open>2^1024\<close> or beyond is the infinity of float64: it is represented by \<open>2^1024\<close>,
  which is above every float64 number and equal to itself, as infinity is in a
  comparison.
\<close>

definition round_half_even :: "real \<Rightarrow> int" where
  "round_half_even x =
     (let f = \<lfloor>x\<rfloor> in
      if x - of_int f < 1/2 then f
      else if 1/2 < x - of_int f then f + 1
      else if even f then f else f + 1)"

definition float64_quantum :: "real \<Rightarrow> int" where
  "float64_quantum y = max (\<lfloor>log 2 y\<rfloor> - 52) (- 1074)"

definition float64_grid_round :: "real \<Rightarrow> real" where
  "float64_grid_round y =
     of_int (round_half_even (y / 2 powi float64_quantum y)) * 2 powi float64_quantum y"

definition float64_magnitude :: "real \<Rightarrow> real" where
  "float64_magnitude y = (if y = 0 then 0 else min (float64_grid_round y) (2 powi 1024))"

definition float64 :: "real \<Rightarrow> real" where
  "float64 x = sgn x * float64_magnitude \<bar>x\<bar>"

subsection \<open>\<open>np.searchsorted(array, value, side="left")\<close>\<close>

text \<open>
  NumPy's routine is the lower-bound binary search on the half-open index range
  \<open>[lo, hi)\<close>, started at \<open>[0, len(array))\<close>: the middle element is compared with the
  key by \<open><\<close>, and the result is the left end when the range is empty.
\<close>

function binsearch_left :: "real list \<Rightarrow> real \<Rightarrow> nat \<Rightarrow> nat \<Rightarrow> nat" where
  "binsearch_left arr key lo hi =
     (if lo < hi then
        (let mid = lo + (hi - lo) div 2 in
         if arr ! mid < key then binsearch_left arr key (mid + 1) hi
         else binsearch_left arr key lo mid)
      else lo)"
  by pat_completeness auto
termination
  by (relation "measure (\<lambda>(arr, key, lo, hi). hi - lo)") auto

declare binsearch_left.simps [simp del]

definition searchsorted_left :: "real list \<Rightarrow> real \<Rightarrow> nat" where
  "searchsorted_left arr v = binsearch_left arr v 0 (length arr)"

subsection \<open>\<open>metadynamicsPotential._find_nearest\<close>\<close>

text \<open>
  \<^verbatim>\<open>
  idx = np.searchsorted(array, value, side="left")
  if idx > 0 and (idx == len(array) or np.abs(value - array[idx - 1]) < np.abs(value - array[idx])):
      return idx - 1
  else:
      return idx
  \<close>
  The conjunction and the disjunction are Python's short-circuit operators, so
  \<open>array[idx]\<close> is only read when \<open>0 < idx < len(array)\<close>. Each of the two
  differences is a float64 subtraction, its exact value rounded; \<open>np.abs\<close> and the
  comparison are exact.
\<close>

definition find_nearest :: "real list \<Rightarrow> real \<Rightarrow> nat" where
  "find_nearest array v =
     (let idx = searchsorted_left array v in
      if idx > 0 \<and>
         (idx = length array \<or>
          \<bar>float64 (v - array ! (idx - 1))\<bar> < \<bar>float64 (v - array ! idx)\<bar>)
      then idx - 1
      else idx)"

text \<open>
  With an array in place of \<open>value\<close>, \<open>np.searchsorted\<close> returns an array of
  indices and \<open>idx > 0\<close> is an array of booleans, whose truth value the \<open>and\<close> asks for:
  an empty array is false (NumPy of the repository's time; the index array itself is
  returned), a one-element array has the truth value of its element (the scalar path,
  with one-element arrays), and a longer array raises \<open>ValueError\<close>.
\<close>

fun find_nearest_seq :: "real list \<Rightarrow> real list \<Rightarrow> error + nat list" where
  "find_nearest_seq array [] = Inr []"
| "find_nearest_seq array [v] = Inr [find_nearest array v]"
| "find_nearest_seq array vs = Inl ValueError"

subsection \<open>Indexing\<close>

text \<open>\<open>xs[i]\<close> for a non-negative index: \<open>IndexError\<close> beyond the end.\<close>

definition getitem :: "real list \<Rightarrow> nat \<Rightarrow> error + real" where
  "getitem xs i = (if i < length xs then Inr (xs ! i) else Inl IndexError)"

text \<open>\<open>xs[idxs]\<close> for an array of non-negative indices (NumPy's integer-array indexing).\<close>

fun getitems :: "real list \<Rightarrow> nat list \<Rightarrow> error + real list" where
  "getitems xs [] = Inr []"
| "getitems xs (i # idxs) =
     bind_err (getitem xs i) (\<lambda>b. bind_err (getitems xs idxs) (\<lambda>bs. Inr (b # bs)))"

subsection \<open>Potentials\<close>

text \<open>
  The base class \<open>_potential1DCls\<close> is not part of the modelled files. What the bias
  classes use of a potential object are its two lambdified functions: the energy
  \<open>_calculate_energies\<close> (of \<open>V\<close>) and the derivative \<open>_calculate_dVdpos\<close> (of
  \<open>dVdpos\<close>), each a function of the position.
\<close>

record potential1DCls =
  calculate_energies :: "real \<Rightarrow> real"
  calculate_dVdpos :: "real \<Rightarrow> real"

text \<open>
  \<open>gaussPotential(A, mu, sigma)\<close> is imported from \<open>ensembler.potentials.OneD\<close>, which
  is not part of the modelled files either: the constructor is a parameter of
  everything that deposits a kernel.
\<close>

type_synonym gaussPotential = "real \<Rightarrow> real \<Rightarrow> real \<Rightarrow> potential1DCls"

subsection \<open>\<open>metadynamicsPotential\<close>\<close>

record metadynamicsPotential = potential1DCls +
  n_trigger :: int
  amplitude :: real
  sigma :: real
  bias_grid_energy :: "real list"
  bias_grid_force :: "real list"
  bin_centers :: "real list"
  current_n :: int
  finished_steps :: int

text \<open>
  \<open>__init__(origPotential, amplitude, sigma, n_trigger, bias_grid_min, bias_grid_max,
  numbins)\<close>. No argument is checked. \<open>np.zeros(numbins)\<close> raises \<open>ValueError\<close> for a
  negative \<open>numbins\<close>; the division by \<open>2*numbins\<close> raises \<open>ZeroDivisionError\<close> when
  \<open>numbins\<close> is zero. The object's energy and derivative functions are those of
  \<open>origPotential\<close> (\<open>self.V = origPotential.V\<close> with the constants substituted).
\<close>

definition metadynamicsPotential_init ::
  "potential1DCls \<Rightarrow> real \<Rightarrow> real \<Rightarrow> int \<Rightarrow> real \<Rightarrow> real \<Rightarrow> int
     \<Rightarrow> error + metadynamicsPotential" where
  "metadynamicsPotential_init origPotential amplitude0 sigma0 n_trigger0
       bias_grid_min bias_grid_max numbins =
     (if numbins < 0 then Inl ValueError
      else if 2 * numbins = 0 then Inl ZeroDivisionError
      else
        (let bin_half = (bias_grid_max - bias_grid_min) / real_of_int (2 * numbins)
         in Inr \<lparr> calculate_energies = calculate_energies origPotential,
                  calculate_dVdpos = calculate_dVdpos origPotential,
                  n_trigger = n_trigger0,
                  amplitude = amplitude0,
                  sigma = sigma0,
                  bias_grid_energy = replicate (nat numbins) 0,
                  bias_grid_force = replicate (nat numbins) 0,
                  bin_centers = linspace (bias_grid_min + bin_half)
                                  (bias_grid_max - bin_half) (nat numbins),
                  current_n = 1,
                  finished_steps = 0 \<rparr>))"

text \<open>
  \<open>_update_potential(curr_position)\<close>: a fresh Gaussian centred on the position,
  evaluated with its derivative on the bin centers and added to the two grids.
\<close>

definition update_potential ::
  "gaussPotential \<Rightarrow> metadynamicsPotential \<Rightarrow> real \<Rightarrow> error + metadynamicsPotential" where
  "update_potential G self curr_position =
     (let new_bias = G (amplitude self) curr_position (sigma self);
          new_bias_bin_energy = map (calculate_energies new_bias) (bin_centers self);
          new_bias_bin_force = map (calculate_dVdpos new_bias) (bin_centers self)
      in bind_err (add_arrays (bias_grid_energy self) new_bias_bin_energy) (\<lambda>e.
         bind_err (add_arrays (bias_grid_force self) new_bias_bin_force) (\<lambda>f.
         Inr (self\<lparr>bias_grid_energy := e, bias_grid_force := f\<rparr>))))"

text \<open>
  \<^verbatim>\<open>
  if self.current_n%self.n_trigger == 0:
      self._update_potential(curr_position)
      self.finished_steps += 1
      self.current_n = 1
  else:
      self.current_n += 1
  \<close>
  Python's \<open>%\<close> on ints raises \<open>ZeroDivisionError\<close> for a zero modulus and otherwise
  has the sign of the modulus, as \<open>mod\<close> on \<open>int\<close> has.
\<close>

definition metastep_due :: "metadynamicsPotential \<Rightarrow> bool" where
  "metastep_due self \<longleftrightarrow> current_n self mod n_trigger self = 0"

definition check_for_metastep ::
  "gaussPotential \<Rightarrow> metadynamicsPotential \<Rightarrow> real \<Rightarrow> error + metadynamicsPotential" where
  "check_for_metastep G self curr_position =
     (if n_trigger self = 0 then Inl ZeroDivisionError
      else if metastep_due self then
        bind_err (update_potential G self curr_position) (\<lambda>self'.
          Inr (self'\<lparr>finished_steps := finished_steps self' + 1, current_n := 1\<rparr>))
      else Inr (self\<lparr>current_n := current_n self + 1\<rparr>))"

text \<open>A simulation calls \<open>check_for_metastep\<close> once per step, with the positions visited.\<close>

fun run_steps ::
  "gaussPotential \<Rightarrow> metadynamicsPotential \<Rightarrow> real list \<Rightarrow> error + metadynamicsPotential" where
  "run_steps G self [] = Inr self"
| "run_steps G self (p # ps) =
     bind_err (check_for_metastep G self p) (\<lambda>self'. run_steps G self' ps)"

text \<open>A sequence of depositions, each one call of \<open>_update_potential\<close>.\<close>

fun deposit_all ::
  "gaussPotential \<Rightarrow> metadynamicsPotential \<Rightarrow> real list \<Rightarrow> error + metadynamicsPotential" where
  "deposit_all G self [] = Inr self"
| "deposit_all G self (p # ps) =
     bind_err (update_potential G self p) (\<lambda>self'. deposit_all G self' ps)"

text \<open>
  The states an object constructed as \<open>self0\<close> can be in: as constructed, and after
  any calls of the two mutating methods that returned.
\<close>

inductive reachable ::
  "gaussPotential \<Rightarrow> metadynamicsPotential \<Rightarrow> metadynamicsPotential \<Rightarrow> bool"
  for G :: gaussPotential and self0 :: metadynamicsPotential where
  constructed: "reachable G self0 self0"
| stepped:
    "reachable G self0 self \<Longrightarrow> check_for_metastep G self p = Inr self'
       \<Longrightarrow> reachable G self0 self'"
| deposited:
    "reachable G self0 self \<Longrightarrow> update_potential G self p = Inr self'
       \<Longrightarrow> reachable G self0 self'"

text \<open>
  The shape invariant of the object: the two grids have one entry per bin center, and
  there is at least one bin.
\<close>

definition grid_ok :: "metadynamicsPotential \<Rightarrow> bool" where
  "grid_ok self \<longleftrightarrow>
     bin_centers self \<noteq> [] \<and>
     length (bias_grid_energy self) = length (bin_centers self) \<and>
     length (bias_grid_force self) = length (bin_centers self)"

text \<open>
  The object with the kernels centred on the positions \<open>ps\<close> added to its two grids:
  what a sequence of depositions is compared with.
\<close>

definition with_deposits ::
  "gaussPotential \<Rightarrow> metadynamicsPotential \<Rightarrow> real list \<Rightarrow> metadynamicsPotential" where
  "with_deposits G self ps =
     self\<lparr>bias_grid_energy :=
            map2 (+) (bias_grid_energy self)
              (map (\<lambda>c. \<Sum>p\<leftarrow>ps. calculate_energies (G (amplitude self) p (sigma self)) c)
                 (bin_centers self)),
          bias_grid_force :=
            map2 (+) (bias_grid_force self)
              (map (\<lambda>c. \<Sum>p\<leftarrow>ps. calculate_dVdpos (G (amplitude self) p (sigma self)) c)
                 (bin_centers self))\<rparr>"

text \<open>
  The positions passed by those calls of a run whose ordinal number (counted from 1) is
  a multiple of \<open>n\<close>.
\<close>

definition fired_positions :: "int \<Rightarrow> real list \<Rightarrow> real list" where
  "fired_positions n ps = map (\<lambda>j. ps ! j) (filter (\<lambda>j. n dvd int j + 1) [0..<length ps])"


text \<open>
  \<open>ene(positions)\<close>. A Python float or int takes the first branch; anything else is
  iterated over, one grid lookup per entry.
\<close>

fun bias_list_of :: "real list \<Rightarrow> real list \<Rightarrow> real list \<Rightarrow> error + real list" where
  "bias_list_of centers grid [] = Inr []"
| "bias_list_of centers grid (entry # rest) =
     bind_err (getitem grid (find_nearest centers entry)) (\<lambda>b.
     bind_err (bias_list_of centers grid rest) (\<lambda>bs. Inr (b # bs)))"

fun ene :: "metadynamicsPotential \<Rightarrow> pyval \<Rightarrow> error + pyval" where
  "ene self (Scalar x) =
     (let current_bin = find_nearest (bin_centers self) x in
      bind_err (getitem (bias_grid_energy self) current_bin) (\<lambda>b.
      bind_err (np_add (vectorized (calculate_energies self) (squeeze (Scalar x))) (Scalar b))
        (\<lambda>r. Inr (squeeze r))))"
| "ene self (Seq xs) =
     bind_err (bias_list_of (bin_centers self) (bias_grid_energy self) xs) (\<lambda>bias_list.
     bind_err (np_add (vectorized (calculate_energies self) (squeeze (Seq xs))) (Seq bias_list))
       (\<lambda>r. Inr (squeeze r)))"

text \<open>
  \<open>force(positions)\<close>: one call of \<open>_find_nearest\<close> on the whole argument, whatever
  its shape.
\<close>

fun force :: "metadynamicsPotential \<Rightarrow> pyval \<Rightarrow> error + pyval" where
  "force self (Scalar x) =
     (let current_bin = find_nearest (bin_centers self) x in
      bind_err (getitem (bias_grid_force self) current_bin) (\<lambda>b.
      bind_err (np_add (vectorized (calculate_dVdpos self) (squeeze (Scalar x))) (Scalar b))
        (\<lambda>r. Inr (squeeze r))))"
| "force self (Seq xs) =
     bind_err (find_nearest_seq (bin_centers self) xs) (\<lambda>current_bin.
     bind_err (getitems (bias_grid_force self) current_bin) (\<lambda>bs.
     bind_err (np_add (vectorized (calculate_dVdpos self) (squeeze (Seq xs))) (Seq bs))
       (\<lambda>r. Inr (squeeze r))))"

text \<open>The shape of a value: a scalar, or an array of some length.\<close>

datatype shape = ScalarShape | SeqShape nat

fun shape_of :: "pyval \<Rightarrow> shape" where
  "shape_of (Scalar x) = ScalarShape"
| "shape_of (Seq xs) = SeqShape (length xs)"

definition result_shape :: "error + pyval \<Rightarrow> error + shape" where
  "result_shape r = (case r of Inl e \<Rightarrow> Inl e | Inr v \<Rightarrow> Inr (shape_of v))"

subsection \<open>Instances for the examples\<close>

text \<open>
  A harmonic well centred at 5 with curvature 1 as base potential, and the Gaussian bump
  \<open>A * exp(-(r - mu)^2 / (2 sigma^2))\<close> with its derivative as kernel constructor. They
  instantiate the two parameters in the concrete examples only.
\<close>

definition harmonic :: potential1DCls where
  "harmonic = \<lparr> calculate_energies = (\<lambda>r. (r - 5)\<^sup>2 / 2),
                calculate_dVdpos = (\<lambda>r. r - 5) \<rparr>"

definition gauss :: gaussPotential where
  "gauss A mu sg =
     \<lparr> calculate_energies = (\<lambda>r. A * exp (- ((r - mu)\<^sup>2) / (2 * sg\<^sup>2))),
       calculate_dVdpos = (\<lambda>r. - (A * (r - mu) / sg\<^sup>2) * exp (- ((r - mu)\<^sup>2) / (2 * sg\<^sup>2))) \<rparr>"

text \<open>An object on the grid \<open>[0, 10]\<close> with four bins that deposits every third step.\<close>

definition example_self0 :: metadynamicsPotential where
  "example_self0 = projr (metadynamicsPotential_init harmonic (1/10) (1/10) 3 0 10 4)"

subsection \<open>\<open>perturbedSystem.set_current_state\<close>\<close>

text \<open>
  The named tuple \<open>lambdaState\<close> that \<open>update_current_state\<close> builds, with the fields
  of its keyword arguments, and the \<open>_current...\<close> attributes of the system. The
  values are numbers or iterables of numbers; nothing below looks inside them.
\<close>

record 'a lambdaState =
  position :: 'a
  temperature :: 'a
  total_system_energy :: 'a
  total_potential_energy :: 'a
  total_kinetic_energy :: 'a
  dhdpos :: 'a
  velocity :: 'a
  lam :: 'a
  dhdlam :: 'a

record 'a perturbedSystem =
  currentPosition :: 'a
  currentVelocities :: 'a
  currentForce :: 'a
  currentTemperature :: 'a
  currentLambda :: 'a
  currentdHdLambda :: 'a
  currentTotE :: 'a
  currentTotPot :: 'a
  currentTotKin :: 'a
  currentState :: "'a lambdaState"

definition update_current_state :: "'a perturbedSystem \<Rightarrow> 'a perturbedSystem" where
  "update_current_state self =
     self\<lparr>currentState :=
       \<lparr> position = currentPosition self,
         temperature = currentTemperature self,
         total_system_energy = currentTotE self,
         total_potential_energy = currentTotPot self,
         total_kinetic_energy = currentTotKin self,
         dhdpos = currentForce self,
         velocity = currentVelocities self,
         lam = currentLambda self,
         dhdlam = currentdHdLambda self \<rparr>\<rparr>"

text \<open>
  \<open>_update_dHdLambda\<close>; \<open>dvdlam\<close> is the method of the system's potential, a
  parameter here.
\<close>

definition update_dHdLambda ::
  "('a \<Rightarrow> 'a) \<Rightarrow> 'a perturbedSystem \<Rightarrow> 'a perturbedSystem" where
  "update_dHdLambda dvdlam self =
     update_current_state (self\<lparr>currentdHdLambda := dvdlam (currentPosition self)\<rparr>)"

text \<open>
  \<open>set_current_state\<close>. \<open>_update_energies\<close> is inherited from the class \<open>system\<close>,
  which is not part of the modelled files: it is the parameter \<open>update_energies\<close>, a
  function of the object.
\<close>

definition set_current_state ::
  "('a perturbedSystem \<Rightarrow> 'a perturbedSystem) \<Rightarrow> ('a \<Rightarrow> 'a) \<Rightarrow> 'a perturbedSystem
     \<Rightarrow> 'a \<Rightarrow> 'a \<Rightarrow> 'a \<Rightarrow> 'a \<Rightarrow> 'a \<Rightarrow> 'a \<Rightarrow> 'a perturbedSystem" where
  "set_current_state update_energies dvdlam self current_position current_velocities
       current_force current_temperature current_lambda current_dHdLambda =
     update_current_state
       (update_dHdLambda dvdlam
         (update_energies
           (self\<lparr> currentPosition := current_position,
                  currentForce := current_force,
                  currentVelocities := current_force,
                  currentTemperature := current_temperature,
                  currentLambda := current_lambda,
                  currentdHdLambda := current_dHdLambda \<rparr>)))"

text \<open>
  An instance of \<open>update_energies\<close> for the examples: potential energy of a
  quadratic well, kinetic energy of a unit mass, and their sum.
\<close>

definition example_update_energies :: "real perturbedSystem \<Rightarrow> real perturbedSystem" where
  "example_update_energies self =
     self\<lparr> currentTotPot := (currentPosition self)\<^sup>2 / 2,
            currentTotKin := (currentVelocities self)\<^sup>2 / 2,
            currentTotE := (currentPosition self)\<^sup>2 / 2 + (currentVelocities self)\<^sup>2 / 2 \<rparr>"

text \<open>An instance of \<open>dvdlam\<close> and a system object for the examples.\<close>

definition example_dvdlam :: "real \<Rightarrow> real" where
  "example_dvdlam x = 2 * x"

definition example_system :: "real perturbedSystem" where
  "example_system =
     \<lparr> currentPosition = 0, currentVelocities = 0, currentForce = 0,
       currentTemperature = 298, currentLambda = 0, currentdHdLambda = 0,
       currentTotE = 0, currentTotPot = 0, currentTotKin = 0,
       currentState =
         \<lparr> position = 0, temperature = 298, total_system_energy = 0,
           total_potential_energy = 0, total_kinetic_energy = 0, dhdpos = 0,
           velocity = 0, lam = 0, dhdlam = 0 \<rparr> \<rparr>"

subsection \<open>\<open>_bias_baseclass.__init__\<close>\<close>

text \<open>
  A bare name in a Python function body is looked up among the function's local
  variables (its parameters and the names it assigns), then among the globals of its
  module, then among the builtins. Names bound in the class body are attributes of the
  class: they are reached as \<open>self.name\<close>, never as bare names.

  The locals of \<open>__init__(self, integrator, system)\<close> are its three parameters (the body
  assigns attributes of \<open>self\<close> only). The globals of \<open>biasOneD.py\<close> are its imports
  and its classes. Of the builtins, those that the module uses are listed.
\<close>

datatype 'v binding = ArgValue 'v | ModuleObject | BuiltinObject

definition init_locals :: "'v \<Rightarrow> 'v \<Rightarrow> 'v \<Rightarrow> (string \<times> 'v binding) list" where
  "init_locals self_obj integrator_arg system_arg =
     [(''self'', ArgValue self_obj),
      (''integrator'', ArgValue integrator_arg),
      (''system'', ArgValue system_arg)]"

definition module_globals :: "(string \<times> 'v binding) list" where
  "module_globals =
     map (\<lambda>n. (n, ModuleObject))
       [''np'', ''sp'', ''_potential1DCls'', ''gaussPotential'', ''_bias_baseclass'',
        ''addedPotentials'', ''metadynamicsPotential'', ''timedependendBias'',
        ''metadynamicsPotentialSympy'']"

definition builtins :: "(string \<times> 'v binding) list" where
  "builtins =
     map (\<lambda>n. (n, BuiltinObject))
       [''super'', ''len'', ''isinstance'', ''float'', ''int'', ''str'', ''TypeError'']"

definition load_name :: "(string \<times> 'v binding) list \<Rightarrow> string \<Rightarrow> error + 'v binding" where
  "load_name local_scope n =
     (case map_of local_scope n of Some b \<Rightarrow> Inr b
      | None \<Rightarrow>
        (case map_of module_globals n of Some b \<Rightarrow> Inr b
         | None \<Rightarrow>
           (case map_of builtins n of Some b \<Rightarrow> Inr b
            | None \<Rightarrow> Inl NameError)))"

text \<open>
  The attributes the constructor has stored when it returns, as far as they come from
  bare names: \<open>self.integrator = integrator\<close>, \<open>self.system = system\<close> and
  \<open>self.constants = {self.y_shift: y_shift}\<close>, in this order. The calls into sympy
  between them read the class attributes \<open>self.position\<close> and \<open>self.y_shift\<close> and the
  global \<open>sp\<close>.
\<close>

record 'v bias_baseclass =
  integrator :: "'v binding"
  system :: "'v binding"
  constants_y_shift :: "'v binding"

definition bias_baseclass_init :: "'v \<Rightarrow> 'v \<Rightarrow> 'v \<Rightarrow> error + 'v bias_baseclass" where
  "bias_baseclass_init self_obj integrator_arg system_arg =
     (let scope = init_locals self_obj integrator_arg system_arg in
      bind_err (load_name scope ''integrator'') (\<lambda>i.
      bind_err (load_name scope ''system'') (\<lambda>s.
      bind_err (load_name scope ''sp'') (\<lambda>_.
      bind_err (load_name scope ''y_shift'') (\<lambda>y.
      Inr \<lparr> integrator = i, system = s, constants_y_shift = y \<rparr>)))))"

section \<open>Properties\<close>

subsection \<open>Float64 rounding\<close>

lemma round_half_even_of_int [simp]: "round_half_even (of_int n) = n"
  by (simp add: round_half_even_def)

lemma round_half_even_bounds:
  "\<lfloor>x\<rfloor> \<le> round_half_even x" "round_half_even x \<le> \<lfloor>x\<rfloor> + 1"
  by (simp_all add: round_half_even_def Let_def)

lemma round_half_even_mono:
  assumes "x \<le> y"
  shows "round_half_even x \<le> round_half_even y"
proof (cases "\<lfloor>x\<rfloor> = \<lfloor>y\<rfloor>")
  case True
  then show ?thesis using assms by (auto simp: round_half_even_def Let_def)
next
  case False
  then have "\<lfloor>x\<rfloor> < \<lfloor>y\<rfloor>" using floor_mono[OF assms] by simp
  then have "round_half_even x \<le> \<lfloor>y\<rfloor>" using round_half_even_bounds(2)[of x] by simp
  then show ?thesis using round_half_even_bounds(1)[of y] by simp
qed

lemma round_half_even_nonneg: "0 \<le> x \<Longrightarrow> 0 \<le> round_half_even x"
  using round_half_even_mono[of 0 x] round_half_even_of_int[of 0] by simp

lemma floor_log2_bounds:
  assumes "0 < (y::real)"
  shows "2 powi \<lfloor>log 2 y\<rfloor> \<le> y" "y < 2 powi (\<lfloor>log 2 y\<rfloor> + 1)"
proof -
  have "2 powr real_of_int \<lfloor>log 2 y\<rfloor> \<le> y \<and> y < 2 powr (real_of_int \<lfloor>log 2 y\<rfloor> + 1)"
    using floor_log_eq_powr_iff[of y 2 "\<lfloor>log 2 y\<rfloor>"] assms by simp
  moreover have "2 powr real_of_int k = (2::real) powi k" for k
    by (rule powr_real_of_int') simp_all
  moreover have "real_of_int \<lfloor>log 2 y\<rfloor> + 1 = real_of_int (\<lfloor>log 2 y\<rfloor> + 1)" by simp
  ultimately show "2 powi \<lfloor>log 2 y\<rfloor> \<le> y" "y < 2 powi (\<lfloor>log 2 y\<rfloor> + 1)"
    by metis+
qed

lemma floor_log2_eqI:
  assumes "2 powi k \<le> (y::real)" "y < 2 powi (k + 1)"
  shows "\<lfloor>log 2 y\<rfloor> = k"
proof -
  have p: "2 powr real_of_int j = (2::real) powi j" for j
    by (rule powr_real_of_int') simp_all
  have "0 < (2::real) powi k" by (rule zero_less_power_int) simp
  then have "0 < y" using assms(1) by linarith
  have "2 powr real_of_int k \<le> y" using assms(1) by (simp add: p)
  moreover have "y < 2 powr (real_of_int k + 1)"
    using assms(2) p[of "k + 1"] by simp
  moreover note \<open>0 < y\<close>
  ultimately show ?thesis using floor_log_eq_powr_iff[of y 2 k] by simp
qed

lemma two_powi_pos [simp]: "0 < (2::real) powi k"
  by (rule zero_less_power_int) simp

lemma float64_grid_round_nonneg: "0 \<le> y \<Longrightarrow> 0 \<le> float64_grid_round y"
  unfolding float64_grid_round_def by (intro mult_nonneg_nonneg) (simp_all add: round_half_even_nonneg)

lemma of_int_two_powi:
  assumes "0 \<le> k"
  shows "of_int (2 ^ nat k) = (2::real) powi k"
  using assms by (simp add: power_int_def)

lemma grid_round_le:
  assumes "y \<le> 2 powi e" "q \<le> e"
  shows "real_of_int (round_half_even (y / 2 powi q)) * 2 powi q \<le> 2 powi e"
proof -
  have k: "real_of_int (2 ^ nat (e - q)) = 2 powi (e - q)"
    using assms(2) by (intro of_int_two_powi) simp
  have "y / 2 powi q \<le> 2 powi e / 2 powi q"
    using assms(1) by (simp add: divide_right_mono)
  also have "2 powi e / 2 powi q = (2::real) powi (e - q)" by (simp add: power_int_diff)
  finally have "y / 2 powi q \<le> real_of_int (2 ^ nat (e - q))" by (simp only: k)
  then have "round_half_even (y / 2 powi q) \<le> 2 ^ nat (e - q)"
    using round_half_even_mono round_half_even_of_int by metis
  then have "real_of_int (round_half_even (y / 2 powi q)) \<le> real_of_int (2 ^ nat (e - q))"
    by (simp only: of_int_le_iff)
  then have "real_of_int (round_half_even (y / 2 powi q)) * 2 powi q \<le> 2 powi (e - q) * 2 powi q"
    unfolding k by (simp add: mult_right_mono)
  also have "2 powi (e - q) * 2 powi q = (2::real) powi e"
    by (simp flip: power_int_add)
  finally show ?thesis .
qed

lemma grid_round_ge:
  assumes "2 powi e \<le> y" "q \<le> e"
  shows "2 powi e \<le> real_of_int (round_half_even (y / 2 powi q)) * 2 powi q"
proof -
  have k: "real_of_int (2 ^ nat (e - q)) = 2 powi (e - q)"
    using assms(2) by (intro of_int_two_powi) simp
  have "(2::real) powi (e - q) = 2 powi e / 2 powi q" by (simp add: power_int_diff)
  also have "\<dots> \<le> y / 2 powi q" using assms(1) by (simp add: divide_right_mono)
  finally have "real_of_int (2 ^ nat (e - q)) \<le> y / 2 powi q" by (simp only: k)
  then have "2 ^ nat (e - q) \<le> round_half_even (y / 2 powi q)"
    using round_half_even_mono round_half_even_of_int by metis
  then have "real_of_int (2 ^ nat (e - q)) \<le> real_of_int (round_half_even (y / 2 powi q))"
    by (simp only: of_int_le_iff)
  then have "2 powi (e - q) * 2 powi q \<le> real_of_int (round_half_even (y / 2 powi q)) * 2 powi q"
    unfolding k by (simp add: mult_right_mono)
  moreover have "2 powi (e - q) * 2 powi q = (2::real) powi e"
    by (simp flip: power_int_add)
  ultimately show ?thesis by simp
qed

lemma float64_grid_round_mono:
  assumes "0 < x" "x \<le> y"
  shows "float64_grid_round x \<le> float64_grid_round y"
proof -
  have y: "0 < y" using assms by simp
  define ex where "ex = \<lfloor>log 2 x\<rfloor>"
  define ey where "ey = \<lfloor>log 2 y\<rfloor>"
  have e: "ex \<le> ey" unfolding ex_def ey_def using assms by (intro floor_mono) simp
  have bx: "x < 2 powi (ex + 1)" unfolding ex_def using assms(1) by (rule floor_log2_bounds)
  have by': "2 powi ey \<le> y" unfolding ey_def using y by (rule floor_log2_bounds)
  have qx: "float64_quantum x = max (ex - 52) (- 1074)" by (simp add: float64_quantum_def ex_def)
  have qy: "float64_quantum y = max (ey - 52) (- 1074)" by (simp add: float64_quantum_def ey_def)
  show ?thesis
  proof (cases "float64_quantum x = float64_quantum y")
    case True
    have "x / 2 powi float64_quantum y \<le> y / 2 powi float64_quantum y"
      using assms(2) by (simp add: divide_right_mono)
    then have "round_half_even (x / 2 powi float64_quantum y) \<le> round_half_even (y / 2 powi float64_quantum y)"
      by (rule round_half_even_mono)
    then show ?thesis unfolding float64_grid_round_def True by (simp add: mult_right_mono)
  next
    case False
    with e qx qy have lt: "ex < ey" "float64_quantum y = ey - 52" "float64_quantum x \<le> ey" "float64_quantum y \<le> ey"
      by (auto simp: max_def split: if_splits)
    have "x \<le> 2 powi ey"
    proof -
      have "(2::real) powi (ex + 1) \<le> 2 powi ey" using lt(1) by (intro power_int_increasing) simp_all
      with bx show ?thesis by simp
    qed
    then have "float64_grid_round x \<le> 2 powi ey" unfolding float64_grid_round_def using lt(3) by (rule grid_round_le)
    also have "\<dots> \<le> float64_grid_round y" unfolding float64_grid_round_def using by' lt(4) by (rule grid_round_ge)
    finally show ?thesis .
  qed
qed

lemma float64_magnitude_nonneg: "0 \<le> y \<Longrightarrow> 0 \<le> float64_magnitude y"
  by (simp add: float64_magnitude_def float64_grid_round_nonneg)

lemma float64_magnitude_mono:
  assumes "0 \<le> x" "x \<le> y"
  shows "float64_magnitude x \<le> float64_magnitude y"
proof (cases "x = 0")
  case True
  then show ?thesis using assms float64_magnitude_nonneg[of y] by (simp add: float64_magnitude_def)
next
  case False
  then have "0 < x" "y \<noteq> 0" using assms by simp_all
  then show ?thesis
    using float64_grid_round_mono[OF \<open>0 < x\<close> assms(2)] False
    by (simp add: float64_magnitude_def min_le_iff_disj)
qed

lemma float64_zero [simp]: "float64 0 = 0"
  by (simp add: float64_def)

lemma float64_minus: "float64 (- x) = - float64 x"
  by (simp add: float64_def sgn_minus)

lemma abs_float64: "\<bar>float64 x\<bar> = float64_magnitude \<bar>x\<bar>"
proof (cases "x = 0")
  case True
  then show ?thesis by (simp add: float64_def float64_magnitude_def)
next
  case False
  then show ?thesis
    using float64_magnitude_nonneg[of "\<bar>x\<bar>"] by (simp add: float64_def abs_mult)
qed

lemma abs_float64_mono: "\<bar>x\<bar> \<le> \<bar>y\<bar> \<Longrightarrow> \<bar>float64 x\<bar> \<le> \<bar>float64 y\<bar>"
  by (simp add: abs_float64 float64_magnitude_mono)

lemma two_powi_neg_numeral: "(2::real) powi (- numeral k) = 1 / 2 ^ numeral k"
  by (simp only: power_int_minus power_int_numeral inverse_eq_divide)

lemma float64_magnitude_one: "float64_magnitude 1 = 1"
proof -
  have q: "float64_quantum 1 = - 52" by (simp add: float64_quantum_def)
  have "round_half_even (1 / 2 powi (- 52)) = 2 ^ 52"
  proof -
    have "(1::real) / 2 powi (- 52) = of_int (2 ^ 52)" by (simp add: two_powi_neg_numeral)
    then show ?thesis by (simp only: round_half_even_of_int)
  qed
  then have "float64_grid_round 1 = 1"
    by (simp add: float64_grid_round_def q two_powi_neg_numeral)
  then show ?thesis by (simp add: float64_magnitude_def)
qed

lemma float64_magnitude_below_one: "float64_magnitude (1 - 1 / 2 ^ 70) = 1"
proof -
  define y :: real where "y = 1 - 1 / 2 ^ 70"
  have y: "1 / 2 \<le> y" "y < 1" "y \<noteq> 0" by (simp_all add: y_def)
  have e: "\<lfloor>log 2 y\<rfloor> = - 1"
    using y by (intro floor_log2_eqI) (simp_all add: two_powi_neg_numeral)
  have q: "float64_quantum y = - 53" by (simp add: float64_quantum_def e)
  have s: "y / 2 powi (- 53) = 2 ^ 53 - 1 / 2 ^ 17"
    by (simp add: y_def two_powi_neg_numeral field_simps)
  have f: "\<lfloor>y / 2 powi (- 53)\<rfloor> = 2 ^ 53 - 1"
    unfolding s by (rule floor_unique) simp_all
  have r: "round_half_even (y / 2 powi (- 53)) = 2 ^ 53"
    unfolding round_half_even_def f Let_def unfolding s by simp
  have "float64_grid_round y = 1"
    unfolding float64_grid_round_def q r by (simp add: two_powi_neg_numeral)
  then have "float64_magnitude y = 1"
    using y(3) by (simp add: float64_magnitude_def)
  then show ?thesis by (simp only: y_def)
qed

subsection \<open>The binary search\<close>

lemma binsearch_done: "\<not> lo < hi \<Longrightarrow> binsearch_left arr key lo hi = lo"
  by (subst binsearch_left.simps) simp

lemma binsearch_go_right:
  "lo < hi \<Longrightarrow> arr ! (lo + (hi - lo) div 2) < key \<Longrightarrow>
   binsearch_left arr key lo hi = binsearch_left arr key (lo + (hi - lo) div 2 + 1) hi"
  by (subst binsearch_left.simps) (simp add: Let_def)

lemma binsearch_go_left:
  "lo < hi \<Longrightarrow> \<not> arr ! (lo + (hi - lo) div 2) < key \<Longrightarrow>
   binsearch_left arr key lo hi = binsearch_left arr key lo (lo + (hi - lo) div 2)"
  by (subst binsearch_left.simps) (simp add: Let_def)

lemma binsearch_range:
  "lo \<le> hi \<Longrightarrow> lo \<le> binsearch_left arr key lo hi \<and> binsearch_left arr key lo hi \<le> hi"
proof (induction arr key lo hi rule: binsearch_left.induct)
  case (1 arr key lo hi)
  show ?case
  proof (cases "lo < hi")
    case False
    with "1.prems" show ?thesis by (simp add: binsearch_done)
  next
    case True
    define mid where "mid = lo + (hi - lo) div 2"
    have m: "lo \<le> mid" "mid < hi" using True by (auto simp: mid_def)
    show ?thesis
    proof (cases "arr ! mid < key")
      case right: True
      have "mid + 1 \<le> binsearch_left arr key (mid + 1) hi \<and> binsearch_left arr key (mid + 1) hi \<le> hi"
        using "1.IH"(1)[OF True mid_def right] m by simp
      then show ?thesis
        using m binsearch_go_right[OF True] right by (simp add: mid_def)
    next
      case left: False
      have "lo \<le> binsearch_left arr key lo mid \<and> binsearch_left arr key lo mid \<le> mid"
        using "1.IH"(2)[OF True mid_def left] m by simp
      then show ?thesis
        using m binsearch_go_left[OF True] left by (simp add: mid_def)
    qed
  qed
qed

lemma binsearch_partition:
  assumes "sorted arr" "lo \<le> hi" "hi \<le> length arr"
    and "\<forall>j<lo. arr ! j < key"
    and "\<forall>j. hi \<le> j \<and> j < length arr \<longrightarrow> \<not> arr ! j < key"
  shows "(\<forall>j<binsearch_left arr key lo hi. arr ! j < key) \<and>
         (\<forall>j. binsearch_left arr key lo hi \<le> j \<and> j < length arr \<longrightarrow> \<not> arr ! j < key)"
  using assms
proof (induction arr key lo hi rule: binsearch_left.induct)
  case (1 arr key lo hi)
  show ?case
  proof (cases "lo < hi")
    case False
    then have "binsearch_left arr key lo hi = lo" by (rule binsearch_done)
    moreover from False "1.prems"(2) have "hi = lo" by simp
    ultimately show ?thesis using "1.prems"(4,5) by simp
  next
    case True
    define mid where "mid = lo + (hi - lo) div 2"
    have m: "lo \<le> mid" "mid < hi" using True by (auto simp: mid_def)
    then have ml: "mid < length arr" using "1.prems"(3) by simp
    show ?thesis
    proof (cases "arr ! mid < key")
      case right: True
      have below: "\<forall>j<mid + 1. arr ! j < key"
      proof (intro allI impI)
        fix j assume "j < mid + 1"
        then have "arr ! j \<le> arr ! mid"
          using \<open>sorted arr\<close> ml by (simp add: sorted_iff_nth_mono)
        with right show "arr ! j < key" by simp
      qed
      have "(\<forall>j<binsearch_left arr key (mid + 1) hi. arr ! j < key) \<and>
         (\<forall>j. binsearch_left arr key (mid + 1) hi \<le> j \<and> j < length arr \<longrightarrow> \<not> arr ! j < key)"
        using "1.IH"(1)[OF True mid_def right \<open>sorted arr\<close> _ "1.prems"(3) below "1.prems"(5)] m
        by simp
      then show ?thesis
        using binsearch_go_right[OF True] right by (simp add: mid_def)
    next
      case left: False
      have above: "\<forall>j. mid \<le> j \<and> j < length arr \<longrightarrow> \<not> arr ! j < key"
      proof (intro allI impI)
        fix j assume "mid \<le> j \<and> j < length arr"
        then have "arr ! mid \<le> arr ! j"
          using \<open>sorted arr\<close> by (simp add: sorted_iff_nth_mono)
        with left show "\<not> arr ! j < key" by simp
      qed
      have "(\<forall>j<binsearch_left arr key lo mid. arr ! j < key) \<and>
         (\<forall>j. binsearch_left arr key lo mid \<le> j \<and> j < length arr \<longrightarrow> \<not> arr ! j < key)"
        using "1.IH"(2)[OF True mid_def left \<open>sorted arr\<close> m(1) _ "1.prems"(4) above] ml
        by simp
      then show ?thesis
        using binsearch_go_left[OF True] left by (simp add: mid_def)
    qed
  qed
qed

lemma searchsorted_left_le: "searchsorted_left arr v \<le> length arr"
  using binsearch_range[of 0 "length arr" arr v] by (simp add: searchsorted_left_def)

lemma searchsorted_left_partition:
  assumes "sorted arr"
  shows "(\<forall>j<searchsorted_left arr v. arr ! j < v) \<and>
         (\<forall>j. searchsorted_left arr v \<le> j \<and> j < length arr \<longrightarrow> v \<le> arr ! j)"
  using binsearch_partition[OF assms, of 0 "length arr" v]
  by (simp add: searchsorted_left_def not_less)

lemma find_nearest_less_length: "array \<noteq> [] \<Longrightarrow> find_nearest array v < length array"
  using searchsorted_left_le[of array v]
  by (auto simp: find_nearest_def Let_def)

lemma find_nearest_closest:
  assumes "sorted array" "j < length array"
  shows "\<bar>float64 (v - array ! find_nearest array v)\<bar> \<le> \<bar>float64 (v - array ! j)\<bar>"
proof -
  define idx where "idx = searchsorted_left array v"
  define d where "d i = \<bar>float64 (v - array ! i)\<bar>" for i
  have le: "idx \<le> length array" unfolding idx_def by (rule searchsorted_left_le)
  have lo: "\<And>i. i < idx \<Longrightarrow> array ! i < v"
    and hi: "\<And>i. idx \<le> i \<Longrightarrow> i < length array \<Longrightarrow> v \<le> array ! i"
    using searchsorted_left_partition[OF assms(1), of v] by (auto simp: idx_def)
  have mono: "\<And>a b. a \<le> b \<Longrightarrow> b < length array \<Longrightarrow> array ! a \<le> array ! b"
    using assms(1) by (simp add: sorted_iff_nth_mono)
  have left_best: "d (idx - 1) \<le> d i" if "i < idx" for i
  proof -
    have "array ! i \<le> array ! (idx - 1)" using that le by (intro mono) auto
    moreover have "array ! (idx - 1) < v" using that by (intro lo) auto
    ultimately have "\<bar>v - array ! (idx - 1)\<bar> \<le> \<bar>v - array ! i\<bar>" by simp
    then show ?thesis unfolding d_def by (rule abs_float64_mono)
  qed
  have right_best: "d idx \<le> d i" if "idx \<le> i" "i < length array" for i
  proof -
    have "array ! idx \<le> array ! i" using that by (intro mono) auto
    moreover have "v \<le> array ! idx" using that by (intro hi) auto
    ultimately have "\<bar>v - array ! idx\<bar> \<le> \<bar>v - array ! i\<bar>" by simp
    then show ?thesis unfolding d_def by (rule abs_float64_mono)
  qed
  have fn: "find_nearest array v =
      (if idx > 0 \<and> (idx = length array \<or> d (idx - 1) < d idx) then idx - 1 else idx)"
    by (simp add: find_nearest_def Let_def idx_def[symmetric] d_def)
  have "d (find_nearest array v) \<le> d j"
  proof (cases "idx > 0 \<and> (idx = length array \<or> d (idx - 1) < d idx)")
    case True
    then have r: "find_nearest array v = idx - 1" by (auto simp: fn)
    show ?thesis
    proof (cases "j < idx")
      case True
      then show ?thesis using left_best r by simp
    next
      case False
      then have "idx \<le> j" by simp
      with assms(2) True have "d (idx - 1) < d idx" by auto
      moreover have "d idx \<le> d j" using right_best \<open>idx \<le> j\<close> assms(2) by simp
      ultimately show ?thesis using r by simp
    qed
  next
    case False
    then have r: "find_nearest array v = idx" by (auto simp: fn)
    show ?thesis
    proof (cases "j < idx")
      case True
      then have "0 < idx" by simp
      with False have "idx \<noteq> length array" "\<not> d (idx - 1) < d idx" by auto
      moreover have "d (idx - 1) \<le> d j" using left_best True by simp
      ultimately show ?thesis using r by simp
    next
      case False
      then show ?thesis using right_best assms(2) r by simp
    qed
  qed
  then show ?thesis by (simp only: d_def)
qed

lemma find_nearest_midpoint:
  assumes "sorted_wrt (<) array" "Suc k < length array"
    and "v = (array ! k + array ! Suc k) / 2"
  shows "find_nearest array v = Suc k"
proof -
  have srt: "sorted array" using assms(1) by (rule strict_sorted_imp_sorted)
  have lt: "array ! k < array ! Suc k"
    using assms(1,2) by (simp add: sorted_wrt_iff_nth_less)
  then have v: "array ! k < v" "v < array ! Suc k" using assms(3) by simp_all
  define idx where "idx = searchsorted_left array v"
  have part: "\<And>i. i < idx \<Longrightarrow> array ! i < v"
    "\<And>i. idx \<le> i \<Longrightarrow> i < length array \<Longrightarrow> v \<le> array ! i"
    using searchsorted_left_partition[OF srt, of v] by (auto simp: idx_def)
  have "k < idx"
  proof (rule ccontr)
    assume "\<not> k < idx"
    then have "v \<le> array ! k" using part(2)[of k] assms(2) by simp
    with v show False by simp
  qed
  moreover have "idx \<le> Suc k"
  proof (rule ccontr)
    assume "\<not> idx \<le> Suc k"
    then have "array ! Suc k < v" using part(1)[of "Suc k"] by simp
    with v show False by simp
  qed
  ultimately have idx: "idx = Suc k" by simp
  have "\<bar>v - array ! k\<bar> = \<bar>v - array ! Suc k\<bar>" using v assms(3) by (simp add: abs_if field_simps)
  then have "\<bar>float64 (v - array ! k)\<bar> = \<bar>float64 (v - array ! Suc k)\<bar>"
    by (simp only: abs_float64)
  then show ?thesis
    using idx assms(2) by (simp add: find_nearest_def idx_def[symmetric])
qed

subsection \<open>Construction and the two mutating methods\<close>

lemma bind_err_Inr [simp]: "bind_err (Inr a) f = f a"
  by (simp add: bind_err_def)

lemma bind_err_Inl [simp]: "bind_err (Inl e) f = Inl e"
  by (simp add: bind_err_def)

lemma length_linspace: "length (linspace a b n) = n"
  by (simp add: linspace_def)

lemma init_Inr_iff:
  "metadynamicsPotential_init P A s n lo hi nb = Inr self \<longleftrightarrow>
     1 \<le> nb \<and>
     self = \<lparr> calculate_energies = calculate_energies P,
              calculate_dVdpos = calculate_dVdpos P,
              n_trigger = n, amplitude = A, sigma = s,
              bias_grid_energy = replicate (nat nb) 0,
              bias_grid_force = replicate (nat nb) 0,
              bin_centers = linspace (lo + (hi - lo) / real_of_int (2 * nb))
                                     (hi - (hi - lo) / real_of_int (2 * nb)) (nat nb),
              current_n = 1, finished_steps = 0 \<rparr>"
  by (auto simp: metadynamicsPotential_init_def Let_def)

lemma init_grid_ok:
  "metadynamicsPotential_init P A s n lo hi nb = Inr self \<Longrightarrow> grid_ok self"
proof -
  assume a: "metadynamicsPotential_init P A s n lo hi nb = Inr self"
  then have "1 \<le> nb" by (simp add: init_Inr_iff)
  then have "length (bin_centers self) = nat nb" "length (bias_grid_energy self) = nat nb"
    "length (bias_grid_force self) = nat nb" "0 < nat nb"
    using a by (auto simp: init_Inr_iff length_linspace)
  then show ?thesis unfolding grid_ok_def by (metis length_greater_0_conv)
qed

lemma add_arrays_same_length:
  "length xs = length ys \<Longrightarrow> add_arrays xs ys = Inr (map2 (+) xs ys)"
  by (simp add: add_arrays_def)

lemma update_potential_ok:
  assumes "grid_ok self"
  shows "update_potential G self p =
     Inr (self\<lparr>bias_grid_energy :=
                 map2 (+) (bias_grid_energy self)
                   (map (calculate_energies (G (amplitude self) p (sigma self))) (bin_centers self)),
               bias_grid_force :=
                 map2 (+) (bias_grid_force self)
                   (map (calculate_dVdpos (G (amplitude self) p (sigma self))) (bin_centers self))\<rparr>)"
  using assms by (simp add: update_potential_def grid_ok_def Let_def add_arrays_same_length)

lemma update_potential_grid_ok:
  "grid_ok self \<Longrightarrow> update_potential G self p = Inr self' \<Longrightarrow> grid_ok self'"
  by (auto simp: update_potential_ok grid_ok_def)

lemma update_potential_frame:
  assumes "grid_ok self" "update_potential G self p = Inr self'"
  shows "bin_centers self' = bin_centers self" "n_trigger self' = n_trigger self"
    "current_n self' = current_n self" "finished_steps self' = finished_steps self"
    "amplitude self' = amplitude self" "sigma self' = sigma self"
    "calculate_energies self' = calculate_energies self"
    "calculate_dVdpos self' = calculate_dVdpos self"
  using assms by (auto simp: update_potential_ok)

lemma check_for_metastep_due:
  assumes "grid_ok self" "n_trigger self \<noteq> 0" "metastep_due self"
  shows "\<exists>u. update_potential G self p = Inr u \<and>
     check_for_metastep G self p = Inr (u\<lparr>finished_steps := finished_steps self + 1, current_n := 1\<rparr>)"
  using assms by (simp add: check_for_metastep_def update_potential_ok)

lemma check_for_metastep_not_due:
  assumes "n_trigger self \<noteq> 0" "\<not> metastep_due self"
  shows "check_for_metastep G self p = Inr (self\<lparr>current_n := current_n self + 1\<rparr>)"
  using assms by (simp add: check_for_metastep_def)

lemma check_for_metastep_grid_ok:
  assumes "grid_ok self" "check_for_metastep G self p = Inr self'"
  shows "grid_ok self'"
proof (cases "n_trigger self = 0")
  case True
  with assms(2) show ?thesis by (simp add: check_for_metastep_def)
next
  case nz: False
  show ?thesis
  proof (cases "metastep_due self")
    case True
    from check_for_metastep_due[OF assms(1) nz True, of G p] assms(2)
    obtain u where "update_potential G self p = Inr u"
      "self' = u\<lparr>finished_steps := finished_steps self + 1, current_n := 1\<rparr>" by auto
    with update_potential_grid_ok[OF assms(1)] show ?thesis by (auto simp: grid_ok_def)
  next
    case False
    with check_for_metastep_not_due[OF nz False, of G p] assms show ?thesis
      by (auto simp: grid_ok_def)
  qed
qed

lemma check_for_metastep_frame:
  assumes "grid_ok self" "check_for_metastep G self p = Inr self'"
  shows "bin_centers self' = bin_centers self" "n_trigger self' = n_trigger self"
    "amplitude self' = amplitude self" "sigma self' = sigma self"
    "calculate_energies self' = calculate_energies self"
    "calculate_dVdpos self' = calculate_dVdpos self"
  using assms
  by (auto simp: check_for_metastep_def update_potential_ok split: if_splits)

lemma reachable_inv:
  assumes "reachable G self0 self" "grid_ok self0"
  shows "grid_ok self \<and> bin_centers self = bin_centers self0 \<and> n_trigger self = n_trigger self0
     \<and> amplitude self = amplitude self0 \<and> sigma self = sigma self0
     \<and> calculate_energies self = calculate_energies self0
     \<and> calculate_dVdpos self = calculate_dVdpos self0"
  using assms
proof (induction rule: reachable.induct)
  case constructed
  then show ?case by simp
next
  case (stepped self p self')
  then show ?case
    using check_for_metastep_grid_ok[of self G p self'] check_for_metastep_frame[of self G p self']
    by simp
next
  case (deposited self p self')
  then show ?case
    using update_potential_grid_ok[of self G p self'] update_potential_frame[of self G p self']
    by simp
qed

lemma ene_scalar_ok:
  assumes "grid_ok self"
  shows "find_nearest (bin_centers self) x < length (bias_grid_energy self)"
    and "ene self (Scalar x) =
     Inr (Scalar (calculate_energies self x + bias_grid_energy self ! find_nearest (bin_centers self) x))"
proof -
  show a: "find_nearest (bin_centers self) x < length (bias_grid_energy self)"
    using assms find_nearest_less_length[of "bin_centers self" x] by (simp add: grid_ok_def)
  then show "ene self (Scalar x) =
     Inr (Scalar (calculate_energies self x + bias_grid_energy self ! find_nearest (bin_centers self) x))"
    by (simp add: getitem_def Let_def)
qed

subsection \<open>Sequences of depositions\<close>

lemma map2_add_zero:
  "length g = length cs \<Longrightarrow> map2 (+) g (map (\<lambda>c. 0::real) cs) = g"
  by (simp add: list_eq_iff_nth_eq)

lemma map2_add_add:
  "length g = length cs \<Longrightarrow>
   map2 (+) (map2 (+) g (map f cs)) (map h cs) = map2 (+) g (map (\<lambda>c. f c + h c :: real) cs)"
  by (simp add: list_eq_iff_nth_eq)

lemma map2_add_replicate_zero:
  "map2 (+) (replicate (length cs) (0::real)) (map f cs) = map f cs"
  by (simp add: list_eq_iff_nth_eq)

lemma with_deposits_Nil: "grid_ok self \<Longrightarrow> with_deposits G self [] = self"
  by (simp add: with_deposits_def grid_ok_def map2_add_zero)

lemma with_deposits_grid_ok: "grid_ok self \<Longrightarrow> grid_ok (with_deposits G self ps)"
  by (simp add: with_deposits_def grid_ok_def)

lemma update_potential_with_deposits:
  "grid_ok self \<Longrightarrow> update_potential G self p = Inr (with_deposits G self [p])"
  by (simp add: update_potential_ok with_deposits_def)

lemma with_deposits_Cons:
  assumes "grid_ok self"
  shows "with_deposits G (with_deposits G self [p]) ps = with_deposits G self (p # ps)"
proof -
  have le: "length (bias_grid_energy self) = length (bin_centers self)"
    "length (bias_grid_force self) = length (bin_centers self)"
    using assms by (simp_all add: grid_ok_def)
  show ?thesis
    unfolding with_deposits_def
    by (simp add: map2_add_add[OF le(1)] map2_add_add[OF le(2)])
qed

lemma deposit_all_ok:
  "grid_ok self \<Longrightarrow> deposit_all G self ps = Inr (with_deposits G self ps)"
proof (induction ps arbitrary: self)
  case Nil
  then show ?case by (simp add: with_deposits_Nil)
next
  case (Cons p ps)
  have "deposit_all G self (p # ps) = deposit_all G (with_deposits G self [p]) ps"
    by (simp add: update_potential_with_deposits[OF Cons.prems])
  also have "\<dots> = Inr (with_deposits G (with_deposits G self [p]) ps)"
    by (rule Cons.IH) (rule with_deposits_grid_ok[OF Cons.prems])
  finally show ?case by (simp only: with_deposits_Cons[OF Cons.prems])
qed

lemma with_deposits_sel [simp]:
  "bias_grid_energy (with_deposits G self ps) =
     map2 (+) (bias_grid_energy self)
       (map (\<lambda>c. \<Sum>p\<leftarrow>ps. calculate_energies (G (amplitude self) p (sigma self)) c)
          (bin_centers self))"
  "bias_grid_force (with_deposits G self ps) =
     map2 (+) (bias_grid_force self)
       (map (\<lambda>c. \<Sum>p\<leftarrow>ps. calculate_dVdpos (G (amplitude self) p (sigma self)) c)
          (bin_centers self))"
  "bin_centers (with_deposits G self ps) = bin_centers self"
  "n_trigger (with_deposits G self ps) = n_trigger self"
  "current_n (with_deposits G self ps) = current_n self"
  "finished_steps (with_deposits G self ps) = finished_steps self"
  "amplitude (with_deposits G self ps) = amplitude self"
  "sigma (with_deposits G self ps) = sigma self"
  by (simp_all add: with_deposits_def)

lemma sum_list_map_mset:
  fixes f :: "real \<Rightarrow> real"
  assumes "mset qs = mset ps"
  shows "(\<Sum>p\<leftarrow>qs. f p) = (\<Sum>p\<leftarrow>ps. f p)"
proof -
  have "(\<Sum>p\<leftarrow>qs. f p) = sum_mset (image_mset f (mset qs))"
    by (metis mset_map sum_mset_sum_list)
  also have "\<dots> = sum_mset (image_mset f (mset ps))" using assms by simp
  also have "\<dots> = (\<Sum>p\<leftarrow>ps. f p)" by (metis mset_map sum_mset_sum_list)
  finally show ?thesis .
qed

lemma with_deposits_mset:
  "mset qs = mset ps \<Longrightarrow> with_deposits G self qs = with_deposits G self ps"
  unfolding with_deposits_def
  by (simp add: sum_list_map_mset[of qs ps])

subsection \<open>The step counter\<close>

lemma due_iff:
  assumes "1 \<le> current_n self" "current_n self \<le> n_trigger self"
  shows "metastep_due self \<longleftrightarrow> current_n self = n_trigger self"
proof (cases "current_n self = n_trigger self")
  case True
  then show ?thesis by (simp add: metastep_due_def)
next
  case False
  with assms have "current_n self mod n_trigger self = current_n self"
    by (intro mod_pos_pos_trivial) simp_all
  with assms(1) False show ?thesis by (simp add: metastep_due_def)
qed

lemma check_for_metastep_counter:
  assumes "grid_ok self" "1 \<le> current_n self" "current_n self \<le> n_trigger self"
  shows "\<exists>self'. check_for_metastep G self p = Inr self' \<and>
     (if metastep_due self
      then self' = (with_deposits G self [p])
                     \<lparr>finished_steps := finished_steps self + 1, current_n := 1\<rparr>
      else self' = self\<lparr>current_n := current_n self + 1\<rparr>) \<and>
     1 \<le> current_n self' \<and> current_n self' \<le> n_trigger self \<and>
     (current_n self' = 1 \<longleftrightarrow> metastep_due self)"
proof -
  have nz: "n_trigger self \<noteq> 0" using assms(2,3) by simp
  show ?thesis
  proof (cases "metastep_due self")
    case True
    have "check_for_metastep G self p =
       Inr ((with_deposits G self [p])\<lparr>finished_steps := finished_steps self + 1, current_n := 1\<rparr>)"
      using True nz by (simp add: check_for_metastep_def update_potential_with_deposits[OF assms(1)])
    then show ?thesis using True assms(2,3) by simp
  next
    case False
    then have "current_n self \<noteq> n_trigger self" using due_iff[OF assms(2,3)] by simp
    moreover have "check_for_metastep G self p = Inr (self\<lparr>current_n := current_n self + 1\<rparr>)"
      using nz False by (rule check_for_metastep_not_due)
    ultimately show ?thesis using False assms(2,3) by simp
  qed
qed

lemma reachable_counter:
  assumes "reachable G self0 self" "grid_ok self0"
    and "1 \<le> current_n self0" "current_n self0 \<le> n_trigger self0"
  shows "1 \<le> current_n self \<and> current_n self \<le> n_trigger self0"
  using assms
proof (induction rule: reachable.induct)
  case constructed
  then show ?case by simp
next
  case (stepped self p self')
  then have inv: "grid_ok self" "n_trigger self = n_trigger self0"
    using reachable_inv[of G self0 self] by simp_all
  from stepped have c: "1 \<le> current_n self" "current_n self \<le> n_trigger self"
    using inv by simp_all
  obtain t where t: "check_for_metastep G self p = Inr t"
     "1 \<le> current_n t" "current_n t \<le> n_trigger self"
    using check_for_metastep_counter[OF inv(1) c, of G p] by blast
  with stepped.hyps(2) have "t = self'" by simp
  with t inv(2) show ?case by simp
next
  case (deposited self p self')
  then have "grid_ok self" using reachable_inv[of G self0 self] by simp
  with deposited update_potential_frame(3)[of self G p self'] show ?case by simp
qed

lemma run_steps_snoc:
  "run_steps G self (ps @ [p]) =
     bind_err (run_steps G self ps) (\<lambda>self'. check_for_metastep G self' p)"
proof (induction ps arbitrary: self)
  case Nil
  show ?case by (cases "check_for_metastep G self p") simp_all
next
  case (Cons q ps)
  show ?case by (cases "check_for_metastep G self q") (simp_all add: Cons.IH)
qed

lemma fired_positions_Nil [simp]: "fired_positions n [] = []"
  by (simp add: fired_positions_def)

lemma fired_positions_snoc:
  "fired_positions n (ps @ [p]) =
     fired_positions n ps @ (if n dvd int (length ps) + 1 then [p] else [])"
proof -
  have "map (\<lambda>j. (ps @ [p]) ! j) (filter (\<lambda>j. n dvd int j + 1) [0..<length ps]) =
        map (\<lambda>j. ps ! j) (filter (\<lambda>j. n dvd int j + 1) [0..<length ps])"
    by (rule map_cong) (auto simp: nth_append)
  then show ?thesis by (simp add: fired_positions_def)
qed

lemma with_deposits_snoc:
  assumes "grid_ok self"
  shows "with_deposits G (with_deposits G self ps) [p] = with_deposits G self (ps @ [p])"
proof -
  have le: "length (bias_grid_energy self) = length (bin_centers self)"
    "length (bias_grid_force self) = length (bin_centers self)"
    using assms by (simp_all add: grid_ok_def)
  show ?thesis
    unfolding with_deposits_def
    by (simp add: map2_add_add[OF le(1)] map2_add_add[OF le(2)])
qed

lemma with_deposits_counters:
  "with_deposits G (self\<lparr>finished_steps := a, current_n := b\<rparr>) ps =
     (with_deposits G self ps)\<lparr>finished_steps := a, current_n := b\<rparr>"
  by (simp add: with_deposits_def)

lemma grid_ok_counters:
  "grid_ok (self\<lparr>finished_steps := a, current_n := b\<rparr>) = grid_ok self"
  by (simp add: grid_ok_def)

lemma mod_step_due:
  assumes "1 \<le> (n::int)" "k mod n + 1 = n"
  shows "n dvd k + 1" "(k + 1) div n = k div n + 1"
proof -
  from assms(2) have "k mod n = n - 1" by simp
  then have "k = n * (k div n) + (n - 1)" by (metis mult_div_mod_eq)
  then have "k + 1 = n * (k div n) + n" by linarith
  then have e: "k + 1 = n * (k div n + 1) + 0" by (simp add: algebra_simps)
  then show "n dvd k + 1" by simp
  from e assms(1) show "(k + 1) div n = k div n + 1"
    by (intro int_div_pos_eq[of _ _ _ 0]) simp_all
qed

lemma mod_step_not_due:
  assumes "1 \<le> (n::int)" "k mod n + 1 \<noteq> n"
  shows "\<not> n dvd k + 1" "(k + 1) div n = k div n" "(k + 1) mod n + 1 = k mod n + 1 + 1"
proof -
  have b: "0 \<le> k mod n" "k mod n < n" using assms(1) by simp_all
  with assms(2) have lt: "k mod n + 1 < n" by simp
  have "n * (k div n) + k mod n = k" by (rule mult_div_mod_eq)
  then have e: "k + 1 = n * (k div n) + (k mod n + 1)" by simp
  have m: "(k + 1) mod n = k mod n + 1"
    using e b lt by (intro int_mod_pos_eq[of _ _ "k div n"]) simp_all
  then show "(k + 1) mod n + 1 = k mod n + 1 + 1" by simp
  from m b show "\<not> n dvd k + 1" by (simp add: dvd_eq_mod_eq_0)
  show "(k + 1) div n = k div n"
    using e b lt by (intro int_div_pos_eq[of _ _ _ "k mod n + 1"]) simp_all
qed

lemma mod_counter_range:
  assumes "1 \<le> (n::int)"
  shows "1 \<le> k mod n + 1" "k mod n + 1 \<le> n"
proof -
  have "0 \<le> k mod n" "k mod n < n" using assms by simp_all
  then show "1 \<le> k mod n + 1" "k mod n + 1 \<le> n" by linarith+
qed

lemma run_steps_fresh:
  assumes "grid_ok self0" "1 \<le> n_trigger self0" "current_n self0 = 1" "finished_steps self0 = 0"
  shows "run_steps G self0 ps =
     Inr ((with_deposits G self0 (fired_positions (n_trigger self0) ps))
            \<lparr>finished_steps := int (length ps) div n_trigger self0,
             current_n := int (length ps) mod n_trigger self0 + 1\<rparr>)"
proof (induction ps rule: rev_induct)
  case Nil
  have "self0\<lparr>finished_steps := finished_steps self0, current_n := current_n self0\<rparr> = self0"
    by simp
  then have "self0\<lparr>finished_steps := 0, current_n := 1\<rparr> = self0"
    by (simp only: assms(3,4))
  then show ?case by (simp add: with_deposits_Nil[OF assms(1)])
next
  case (snoc p ps)
  define n where "n = n_trigger self0"
  define k where "k = int (length ps)"
  define F where "F = fired_positions n ps"
  define W where "W = with_deposits G self0 F"
  define sk where "sk = W\<lparr>finished_steps := k div n, current_n := k mod n + 1\<rparr>"
  have n1: "1 \<le> n" using assms(2) by (simp add: n_def)
  have run: "run_steps G self0 ps = Inr sk"
    using snoc.IH by (simp add: sk_def W_def F_def n_def k_def)
  have gW: "grid_ok W" unfolding W_def using assms(1) by (rule with_deposits_grid_ok)
  have gk: "grid_ok sk" unfolding sk_def using gW by (simp add: grid_ok_counters)
  have fk: "n_trigger sk = n" "current_n sk = k mod n + 1" "finished_steps sk = k div n"
    by (simp_all add: sk_def W_def n_def)
  have ck: "1 \<le> current_n sk" "current_n sk \<le> n_trigger sk"
    using mod_counter_range[OF n1, of k] fk by simp_all
  have due: "metastep_due sk \<longleftrightarrow> k mod n + 1 = n"
    using due_iff[OF ck] fk by simp
  obtain t where t: "check_for_metastep G sk p = Inr t"
     "if metastep_due sk
      then t = (with_deposits G sk [p])\<lparr>finished_steps := finished_steps sk + 1, current_n := 1\<rparr>
      else t = sk\<lparr>current_n := current_n sk + 1\<rparr>"
    using check_for_metastep_counter[OF gk ck, of G p] by blast
  have step: "run_steps G self0 (ps @ [p]) = Inr t"
    by (simp add: run_steps_snoc run t(1))
  have len: "int (length (ps @ [p])) = k + 1" by (simp add: k_def)
  show ?case
  proof (cases "k mod n + 1 = n")
    case True
    note a = mod_step_due[OF n1 True]
    have "with_deposits G sk [p] =
        (with_deposits G self0 (F @ [p]))\<lparr>finished_steps := k div n, current_n := k mod n + 1\<rparr>"
      unfolding sk_def W_def
      by (simp only: with_deposits_counters with_deposits_snoc[OF assms(1)])
    then have "t = (with_deposits G self0 (F @ [p]))\<lparr>finished_steps := k div n + 1, current_n := 1\<rparr>"
      using t(2) due True fk by simp
    moreover have "fired_positions n (ps @ [p]) = F @ [p]"
      using a(1) by (simp add: fired_positions_snoc F_def k_def)
    moreover have "(k + 1) mod n + 1 = 1" using a(1) by (simp add: dvd_eq_mod_eq_0)
    ultimately show ?thesis
      unfolding step len n_def[symmetric] by (simp only: a(2))
  next
    case False
    note a = mod_step_not_due[OF n1 False]
    have "t = W\<lparr>finished_steps := k div n, current_n := k mod n + 1 + 1\<rparr>"
      using t(2) due False fk by (simp add: sk_def)
    moreover have "fired_positions n (ps @ [p]) = F"
      using a(1) by (simp add: fired_positions_snoc F_def k_def)
    ultimately show ?thesis
      unfolding step len n_def[symmetric] by (simp only: a(2,3) W_def)
  qed
qed

subsection \<open>The example object\<close>

lemma example_init:
  "metadynamicsPotential_init harmonic (1/10) (1/10) 3 0 10 4 = Inr example_self0"
  by (simp add: example_self0_def metadynamicsPotential_init_def)

lemma example_fields:
  "current_n example_self0 = 1" "n_trigger example_self0 = 3"
  "finished_steps example_self0 = 0"
  by (simp_all add: example_self0_def metadynamicsPotential_init_def)

subsection \<open>Queries outside the bin centers\<close>

lemma binsearch_all_ge:
  "(\<forall>j. lo \<le> j \<and> j < hi \<longrightarrow> \<not> arr ! j < key) \<Longrightarrow> binsearch_left arr key lo hi = lo"
proof (induction arr key lo hi rule: binsearch_left.induct)
  case (1 arr key lo hi)
  show ?case
  proof (cases "lo < hi")
    case False
    then show ?thesis by (rule binsearch_done)
  next
    case True
    define mid where "mid = lo + (hi - lo) div 2"
    have m: "lo \<le> mid" "mid < hi" using True by (auto simp: mid_def)
    have left: "\<not> arr ! mid < key" using "1.prems" m by simp
    have "binsearch_left arr key lo mid = lo"
      using "1.IH"(2)[OF True mid_def left] "1.prems" m by simp
    then show ?thesis using binsearch_go_left[OF True] left by (simp add: mid_def)
  qed
qed

lemma binsearch_all_less:
  "lo \<le> hi \<Longrightarrow> (\<forall>j. lo \<le> j \<and> j < hi \<longrightarrow> arr ! j < key) \<Longrightarrow> binsearch_left arr key lo hi = hi"
proof (induction arr key lo hi rule: binsearch_left.induct)
  case (1 arr key lo hi)
  show ?case
  proof (cases "lo < hi")
    case False
    with "1.prems"(1) show ?thesis by (simp add: binsearch_done)
  next
    case True
    define mid where "mid = lo + (hi - lo) div 2"
    have m: "lo \<le> mid" "mid < hi" using True by (auto simp: mid_def)
    have right: "arr ! mid < key" using "1.prems" m by simp
    have "binsearch_left arr key (mid + 1) hi = hi"
      using "1.IH"(1)[OF True mid_def right] "1.prems" m by simp
    then show ?thesis using binsearch_go_right[OF True] right by (simp add: mid_def)
  qed
qed

lemma find_nearest_below_all:
  assumes "\<forall>j<length array. v \<le> array ! j"
  shows "find_nearest array v = 0"
proof -
  have "searchsorted_left array v = 0"
    unfolding searchsorted_left_def using assms by (intro binsearch_all_ge) (simp add: not_less)
  then show ?thesis by (simp add: find_nearest_def)
qed

lemma find_nearest_above_all:
  assumes "\<forall>j<length array. array ! j < v"
  shows "find_nearest array v = length array - 1"
proof -
  have "searchsorted_left array v = length array"
    unfolding searchsorted_left_def using assms by (intro binsearch_all_less) simp_all
  then show ?thesis by (cases "array = []") (simp_all add: find_nearest_def)
qed

lemma linspace_centers_nth:
  assumes "1 \<le> nb" "i < nat nb"
  shows "linspace (lo + (hi - lo) / real_of_int (2 * nb))
                  (hi - (hi - lo) / real_of_int (2 * nb)) (nat nb) ! i =
         lo + (hi - lo) * ((2 * real i + 1) / (2 * real_of_int nb))"
proof (cases "nat nb = 1")
  case True
  then have "nb = 1" "i = 0" using assms by simp_all
  then show ?thesis by (simp add: linspace_def field_simps)
next
  case False
  then have n2: "2 \<le> nb" using assms(1) by simp
  then have r: "real (nat nb - 1) = real_of_int nb - 1" "real_of_int nb - 1 \<noteq> 0" "real_of_int nb \<noteq> 0"
    by (simp_all add: of_nat_diff)
  have "linspace (lo + (hi - lo) / real_of_int (2 * nb))
                  (hi - (hi - lo) / real_of_int (2 * nb)) (nat nb) ! i =
        lo + (hi - lo) / real_of_int (2 * nb) + real i *
          ((hi - (hi - lo) / real_of_int (2 * nb) - (lo + (hi - lo) / real_of_int (2 * nb)))
             / real (nat nb - 1))"
    using False assms(2) by (simp add: linspace_def)
  also have "(hi - (hi - lo) / real_of_int (2 * nb) - (lo + (hi - lo) / real_of_int (2 * nb)))
             / real (nat nb - 1) = (hi - lo) / real_of_int nb"
    using r by (simp add: field_simps)
  also have "lo + (hi - lo) / real_of_int (2 * nb) + real i * ((hi - lo) / real_of_int nb) =
        lo + (hi - lo) * ((2 * real i + 1) / (2 * real_of_int nb))"
    using r(3) by (simp add: field_simps)
  finally show ?thesis .
qed

lemma init_center_between:
  assumes "metadynamicsPotential_init P A s n lo hi nb = Inr self" "i < length (bin_centers self)"
  shows "min lo hi \<le> bin_centers self ! i" "bin_centers self ! i \<le> max lo hi"
    "lo \<noteq> hi \<Longrightarrow> min lo hi < bin_centers self ! i"
    "lo \<noteq> hi \<Longrightarrow> bin_centers self ! i < max lo hi"
proof -
  have nb: "1 \<le> nb" using assms(1) by (simp add: init_Inr_iff)
  have len: "length (bin_centers self) = nat nb"
    using assms(1) by (auto simp: init_Inr_iff length_linspace)
  then have i: "i < nat nb" using assms(2) by simp
  define t where "t = (2 * real i + 1) / (2 * real_of_int nb)"
  have c: "bin_centers self ! i = lo + (hi - lo) * t"
    using assms(1) linspace_centers_nth[OF nb i, of lo hi] by (auto simp: init_Inr_iff t_def)
  have "int i + 1 \<le> nb" using i nb by linarith
  then have "real_of_int (int i + 1) \<le> real_of_int nb" by (simp only: of_int_le_iff)
  then have "real i + 1 \<le> real_of_int nb" by simp
  then have lt: "2 * real i + 1 < 2 * real_of_int nb" by linarith
  have pos: "0 < 2 * real_of_int nb" using nb by simp
  have t: "0 < t" "t < 1"
    using lt pos by (simp_all add: t_def add_pos_nonneg)
  have lo_hi: "lo + (hi - lo) * t = (1 - t) * lo + t * hi" by (simp add: algebra_simps)
  show "min lo hi \<le> bin_centers self ! i"
  proof -
    have "(1 - t) * min lo hi \<le> (1 - t) * lo" "t * min lo hi \<le> t * hi"
      using t by (simp_all add: mult_left_mono)
    then have "(1 - t) * min lo hi + t * min lo hi \<le> (1 - t) * lo + t * hi" by linarith
    then show ?thesis unfolding c lo_hi by (simp add: algebra_simps)
  qed
  show "bin_centers self ! i \<le> max lo hi"
  proof -
    have "(1 - t) * lo \<le> (1 - t) * max lo hi" "t * hi \<le> t * max lo hi"
      using t by (simp_all add: mult_left_mono)
    then have "(1 - t) * lo + t * hi \<le> (1 - t) * max lo hi + t * max lo hi" by linarith
    then show ?thesis unfolding c lo_hi by (simp add: algebra_simps)
  qed
  show "min lo hi < bin_centers self ! i" if "lo \<noteq> hi"
  proof (cases "lo < hi")
    case True
    then have "0 < (hi - lo) * t" using t by simp
    with True show ?thesis unfolding c by simp
  next
    case False
    with that have "hi < lo" by simp
    then have "(lo - hi) * t < (lo - hi) * 1" using t by (intro mult_strict_left_mono) simp_all
    then have "hi < lo + (hi - lo) * t" by (simp add: algebra_simps)
    with \<open>hi < lo\<close> show ?thesis unfolding c by simp
  qed
  show "bin_centers self ! i < max lo hi" if "lo \<noteq> hi"
  proof (cases "lo < hi")
    case True
    then have "(hi - lo) * t < (hi - lo) * 1" using t by (intro mult_strict_left_mono) simp_all
    then have "lo + (hi - lo) * t < hi" by (simp add: algebra_simps)
    with True show ?thesis unfolding c by simp
  next
    case False
    with that have "hi < lo" by simp
    then have "(hi - lo) * t < 0" using t by (simp add: mult_neg_pos)
    with \<open>hi < lo\<close> show ?thesis unfolding c by simp
  qed
qed

subsection \<open>The read path\<close>

lemma force_scalar_ok:
  assumes "grid_ok self"
  shows "force self (Scalar x) =
     Inr (Scalar (calculate_dVdpos self x + bias_grid_force self ! find_nearest (bin_centers self) x))"
proof -
  have "find_nearest (bin_centers self) x < length (bias_grid_force self)"
    using assms find_nearest_less_length[of "bin_centers self" x] by (simp add: grid_ok_def)
  then show ?thesis by (simp add: getitem_def Let_def)
qed

lemma bias_list_of_ok:
  assumes "centers \<noteq> []" "length grid = length centers"
  shows "bias_list_of centers grid xs = Inr (map (\<lambda>x. grid ! find_nearest centers x) xs)"
proof (induction xs)
  case Nil
  show ?case by simp
next
  case (Cons x xs)
  have "find_nearest centers x < length grid"
    using assms find_nearest_less_length[of centers x] by simp
  then show ?case by (simp add: Cons.IH getitem_def)
qed

lemma ene_seq_shape:
  assumes "grid_ok self"
  shows "result_shape (ene self (Seq xs)) =
     Inr (if length xs = 1 then ScalarShape else SeqShape (length xs))"
proof -
  have b: "bias_list_of (bin_centers self) (bias_grid_energy self) xs =
      Inr (map (\<lambda>x. bias_grid_energy self ! find_nearest (bin_centers self) x) xs)"
    using assms by (intro bias_list_of_ok) (simp_all add: grid_ok_def)
  have e: "ene self (Seq xs) =
      bind_err (np_add (vectorized (calculate_energies self) (squeeze (Seq xs)))
                 (Seq (map (\<lambda>x. bias_grid_energy self ! find_nearest (bin_centers self) x) xs)))
        (\<lambda>r. Inr (squeeze r))"
    by (simp only: ene.simps b bind_err_Inr)
  show ?thesis
  proof (cases xs)
    case Nil
    then show ?thesis unfolding e by (simp add: result_shape_def add_arrays_def)
  next
    case (Cons x ys)
    show ?thesis
    proof (cases ys)
      case Nil
      with Cons show ?thesis unfolding e by (simp add: result_shape_def)
    next
      case (Cons y zs)
      with \<open>xs = x # ys\<close> show ?thesis unfolding e by (simp add: result_shape_def add_arrays_def)
    qed
  qed
qed

subsection \<open>The claims\<close>

text \<open>
  C1 (sum decomposition). In every state an object can reach after a construction that
  returned, and for every scalar position \<open>x\<close>, \<open>ene(x)\<close> raises nothing and returns the
  energy of the base potential at \<open>x\<close> plus the entry of \<open>bias_grid_energy\<close> at the
  index \<open>_find_nearest(bin_centers, x)\<close>, which is an index of the grid.
\<close>

theorem ene_sum_decomposition:
  assumes "metadynamicsPotential_init origPotential A s n lo hi numbins = Inr self0"
    and "reachable G self0 self"
  shows "find_nearest (bin_centers self) x < length (bias_grid_energy self) \<and>
     ene self (Scalar x) =
       Inr (Scalar (calculate_energies origPotential x
                    + bias_grid_energy self ! find_nearest (bin_centers self) x))"
proof -
  have g0: "grid_ok self0" using assms(1) by (rule init_grid_ok)
  have "calculate_energies self0 = calculate_energies origPotential"
    using assms(1) by (auto simp: init_Inr_iff)
  moreover have "grid_ok self" "calculate_energies self = calculate_energies self0"
    using reachable_inv[OF assms(2) g0] by simp_all
  ultimately show ?thesis using ene_scalar_ok[of self x] by simp
qed

theorem ene_sum_decomposition_witness:
  "metadynamicsPotential_init harmonic (1/10) (1/10) 3 0 10 4 = Inr example_self0 \<and>
   reachable gauss example_self0 example_self0 \<and>
   ene example_self0 (Scalar 7) = Inr (Scalar 2)"
proof -
  have h: "metadynamicsPotential_init harmonic (1/10) (1/10) 3 0 10 4 = Inr example_self0"
    by (simp add: example_self0_def metadynamicsPotential_init_def)
  have r: "reachable gauss example_self0 example_self0" by (rule reachable.constructed)
  have z: "bias_grid_energy example_self0 = replicate 4 0"
    by (simp add: example_self0_def metadynamicsPotential_init_def)
  have "ene example_self0 (Scalar 7) = Inr (Scalar (calculate_energies harmonic 7))"
    using ene_sum_decomposition[OF h r, of 7] by (simp add: z)
  then show ?thesis using h r by (simp add: harmonic_def)
qed

text \<open>
  C2 (deposition schedule). For every trigger interval \<open>n_trigger \<ge> 1\<close> and every
  run of calls of \<open>check_for_metastep\<close> on a freshly constructed object: every call
  returns; after \<open>k\<close> calls \<open>finished_steps\<close> is \<open>k div n_trigger\<close>; the next
  call, number \<open>k + 1\<close>, takes the depositing branch exactly when \<open>n_trigger\<close>
  divides \<open>k + 1\<close>; and the two grids are those that depositing at the positions of
  the calls whose number is a multiple of \<open>n_trigger\<close>, and at no others, gives.
\<close>

theorem deposition_schedule:
  assumes "metadynamicsPotential_init origPotential A s n lo hi numbins = Inr self0"
    and "1 \<le> n"
  shows "\<exists>self. run_steps G self0 ps = Inr self \<and>
       finished_steps self = int (length ps) div n \<and>
       (metastep_due self \<longleftrightarrow> n dvd int (length ps) + 1) \<and>
       (\<exists>d. deposit_all G self0 (fired_positions n ps) = Inr d \<and>
            bias_grid_energy self = bias_grid_energy d \<and>
            bias_grid_force self = bias_grid_force d)"
proof -
  have g0: "grid_ok self0" using assms(1) by (rule init_grid_ok)
  have f0: "current_n self0 = 1" "finished_steps self0 = 0" "n_trigger self0 = n"
    using assms(1) by (auto simp: init_Inr_iff)
  define k where "k = int (length ps)"
  define W where "W = with_deposits G self0 (fired_positions n ps)"
  define r where "r = W\<lparr>finished_steps := k div n, current_n := k mod n + 1\<rparr>"
  have run: "run_steps G self0 ps = Inr r"
    using run_steps_fresh[OF g0 _ f0(1,2), of G ps] assms(2) f0(3)
    by (simp add: r_def W_def k_def)
  have fr: "finished_steps r = k div n" "current_n r = k mod n + 1" "n_trigger r = n"
    "bias_grid_energy r = bias_grid_energy W" "bias_grid_force r = bias_grid_force W"
    by (simp_all add: r_def W_def f0)
  have c: "1 \<le> current_n r" "current_n r \<le> n_trigger r"
    using mod_counter_range[OF assms(2), of k] fr by simp_all
  have due: "metastep_due r \<longleftrightarrow> n dvd k + 1"
  proof (cases "k mod n + 1 = n")
    case True
    with mod_step_due(1)[OF assms(2) True] due_iff[OF c] fr show ?thesis by simp
  next
    case False
    with mod_step_not_due(1)[OF assms(2) False] due_iff[OF c] fr show ?thesis by simp
  qed
  have dep: "deposit_all G self0 (fired_positions n ps) = Inr W"
    unfolding W_def using g0 by (rule deposit_all_ok)
  show ?thesis
    using run fr(1,4,5) due dep unfolding k_def by blast
qed

theorem deposition_schedule_witness:
  "metadynamicsPotential_init harmonic (1/10) (1/10) 3 0 10 4 = Inr example_self0 \<and>
   (1::int) \<le> 3 \<and>
   (\<exists>self. run_steps gauss example_self0 [1, 2, 3, 4, 5, 6] = Inr self \<and>
       finished_steps self = 2 \<and> \<not> metastep_due self \<and>
       (\<exists>d. deposit_all gauss example_self0 [3, 6] = Inr d \<and>
            bias_grid_energy self = bias_grid_energy d \<and>
            bias_grid_force self = bias_grid_force d))"
proof -
  have f: "fired_positions 3 [1, 2, 3, 4, 5, 6] = [3, 6]"
    by (simp add: fired_positions_def)
  have l: "int (length [1, 2, 3, 4, 5, 6 :: real]) div 3 = 2"
    "\<not> (3::int) dvd int (length [1, 2, 3, 4, 5, 6 :: real]) + 1"
    by simp_all
  from deposition_schedule[OF example_init, of gauss "[1, 2, 3, 4, 5, 6]"]
  show ?thesis unfolding f using l example_init by auto
qed

text \<open>
  C3 (nearest-bin lookup). On every array sorted in strictly increasing order
  \<open>_find_nearest\<close> returns an index such that no entry of the array has a strictly
  smaller computed distance to the query than the entry at that index (an index of
  the array, unless the array is empty); the computed distance is
  \<open>np.abs(value - entry)\<close>, the float64 result of the subtraction. At the exact
  midpoint between two adjacent entries the two computed distances are equal, the
  comparison \<open><\<close> fails, and the higher of the two indices is returned, not the lower.
\<close>

theorem find_nearest_computed_closest_upper_tie:
  assumes "sorted_wrt (<) array"
  shows "(\<forall>j<length array.
        \<bar>float64 (v - array ! find_nearest array v)\<bar> \<le> \<bar>float64 (v - array ! j)\<bar>) \<and>
     (array \<noteq> [] \<longrightarrow> find_nearest array v < length array) \<and>
     (\<forall>k. Suc k < length array \<and> v = (array ! k + array ! Suc k) / 2
          \<longrightarrow> find_nearest array v = Suc k)"
proof -
  have "sorted array" using assms by (rule strict_sorted_imp_sorted)
  then show ?thesis
    using find_nearest_closest[of array _ v] find_nearest_less_length[of array v]
      find_nearest_midpoint[OF assms, of _ v]
    by blast
qed

theorem find_nearest_computed_closest_upper_tie_witness:
  "sorted_wrt (<) [0, 2, 6 :: real] \<and>
   \<bar>float64 (4 - [0, 2, 6] ! find_nearest [0, 2, 6] 4)\<bar> \<le> \<bar>float64 (4 - [0, 2, 6] ! 0)\<bar> \<and>
   \<bar>float64 (4 - [0, 2, 6] ! find_nearest [0, 2, 6] 4)\<bar> \<le> \<bar>float64 (4 - [0, 2, 6] ! 1)\<bar> \<and>
   \<bar>float64 (4 - [0, 2, 6] ! find_nearest [0, 2, 6] 4)\<bar> \<le> \<bar>float64 (4 - [0, 2, 6] ! 2)\<bar> \<and>
   find_nearest [0, 2, 6] 4 < length [0, 2, 6 :: real] \<and>
   (4 :: real) = ([0, 2, 6] ! 1 + [0, 2, 6] ! 2) / 2 \<and>
   find_nearest [0, 2, 6] 4 = 2"
proof -
  have h: "sorted_wrt (<) [0, 2, 6 :: real]" by simp
  have m: "Suc 1 < length [0, 2, 6 :: real] \<and> (4 :: real) = ([0, 2, 6] ! 1 + [0, 2, 6] ! Suc 1) / 2"
    by simp
  note t = find_nearest_computed_closest_upper_tie[OF h, of 4]
  from t m have "find_nearest [0, 2, 6] 4 = Suc 1" by blast
  then have fn: "find_nearest [0, 2, 6] 4 = 2" by simp
  from t have near: "j < length [0, 2, 6 :: real] \<Longrightarrow>
      \<bar>float64 (4 - [0, 2, 6] ! find_nearest [0, 2, 6] 4)\<bar> \<le> \<bar>float64 (4 - [0, 2, 6] ! j)\<bar>" for j
    by blast
  have "\<bar>float64 (4 - [0, 2, 6] ! find_nearest [0, 2, 6] 4)\<bar> \<le> \<bar>float64 (4 - [0, 2, 6] ! 0)\<bar>"
    "\<bar>float64 (4 - [0, 2, 6] ! find_nearest [0, 2, 6] 4)\<bar> \<le> \<bar>float64 (4 - [0, 2, 6] ! 1)\<bar>"
    "\<bar>float64 (4 - [0, 2, 6] ! find_nearest [0, 2, 6] 4)\<bar> \<le> \<bar>float64 (4 - [0, 2, 6] ! 2)\<bar>"
    by (rule near, simp)+
  moreover from t have "find_nearest [0, 2, 6] 4 < length [0, 2, 6 :: real]" by blast
  moreover have "(4 :: real) = ([0, 2, 6] ! 1 + [0, 2, 6] ! 2) / 2" by simp
  ultimately show ?thesis using h fn by blast
qed

text \<open>
  The claim as written promises the lower index at a midpoint, and an index whose
  center no other center beats in true distance. On the centers \<open>[0, 2]\<close> the query
  \<open>1\<close> is the midpoint of the two entries, and index 1 is returned. On the centers
  \<open>[2^(-70), 2]\<close> the query \<open>1\<close> is strictly closer to the first center, but the
  float64 difference \<open>1 - 2^(-70)\<close> is \<open>1\<close>, as large as the distance to the second
  center, and index 1 is returned.
\<close>

theorem find_nearest_tie_counterexample:
  "sorted_wrt (<) [0, 2 :: real] \<and> (1 :: real) = ([0, 2] ! 0 + [0, 2] ! 1) / 2 \<and>
   find_nearest [0, 2] 1 = 1 \<and> find_nearest [0, 2] 1 \<noteq> 0 \<and>
   sorted_wrt (<) [1 / 2 ^ 70, 2 :: real] \<and>
   find_nearest [1 / 2 ^ 70, 2] 1 = 1 \<and>
   \<bar>1 - [1 / 2 ^ 70, 2 :: real] ! 0\<bar> < \<bar>1 - [1 / 2 ^ 70, 2 :: real] ! 1\<bar>"
proof -
  have s1: "searchsorted_left [0, 2] 1 = 1"
    by (simp add: searchsorted_left_def binsearch_left.simps)
  have s2: "searchsorted_left [1 / 2 ^ 70, 2] 1 = 1"
    by (simp add: searchsorted_left_def binsearch_left.simps)
  have a: "find_nearest [0, 2] 1 = 1"
    by (simp add: find_nearest_def s1 abs_float64)
  have x: "[1 / 2 ^ 70, 2 :: real] ! (1 - 1) = 1 / 2 ^ 70" "[1 / 2 ^ 70, 2 :: real] ! 1 = 2"
    by simp_all
  have p: "\<bar>1 - 1 / 2 ^ 70 :: real\<bar> = 1 - 1 / 2 ^ 70" "\<bar>1 - 2 :: real\<bar> = 1"
    by simp_all
  have d: "\<bar>float64 (1 - 1 / 2 ^ 70)\<bar> = 1" "\<bar>float64 (1 - 2)\<bar> = 1"
    by (simp_all only: abs_float64 p float64_magnitude_below_one float64_magnitude_one)
  have b: "find_nearest [1 / 2 ^ 70, 2] 1 = 1"
    unfolding find_nearest_def Let_def s2 x d by simp
  have c: "\<bar>1 - [1 / 2 ^ 70, 2 :: real] ! 0\<bar> < \<bar>1 - [1 / 2 ^ 70, 2 :: real] ! 1\<bar>"
    by simp
  have o: "sorted_wrt (<) [0, 2 :: real]" "(1 :: real) = ([0, 2] ! 0 + [0, 2] ! 1) / 2"
    "sorted_wrt (<) [1 / 2 ^ 70, 2 :: real]"
    by simp_all
  show ?thesis using a b c o by (simp only: simp_thms)
qed

text \<open>
  C4 (construction). The constructor checks none of its arguments and raises neither
  \<open>InvalidConfigurationError\<close> nor \<open>InvalidRangeError\<close>. With \<open>numbins \<ge> 1\<close> it
  returns an object for every trigger interval, kernel width and pair of bounds, also
  for \<open>n_trigger \<le> 0\<close>, \<open>sigma \<le> 0\<close> and an upper bound not above the lower one.
  With \<open>numbins = 0\<close> it raises \<open>ZeroDivisionError\<close> and with \<open>numbins < 0\<close>
  \<open>ValueError\<close>; in these two cases no object is produced.
\<close>

theorem construction_unvalidated:
  "(1 \<le> numbins \<longrightarrow> \<not> isl (metadynamicsPotential_init origPotential A s n lo hi numbins)) \<and>
   (numbins = 0 \<longrightarrow>
      metadynamicsPotential_init origPotential A s n lo hi numbins = Inl ZeroDivisionError) \<and>
   (numbins < 0 \<longrightarrow>
      metadynamicsPotential_init origPotential A s n lo hi numbins = Inl ValueError) \<and>
   metadynamicsPotential_init origPotential A s n lo hi numbins \<noteq> Inl InvalidConfigurationError \<and>
   metadynamicsPotential_init origPotential A s n lo hi numbins \<noteq> Inl InvalidRangeError"
  by (simp add: metadynamicsPotential_init_def Let_def)

theorem construction_unvalidated_witness:
  "(1::int) \<le> 100 \<and>
   \<not> isl (metadynamicsPotential_init harmonic (1/10) (1/10) 100 0 10 100) \<and>
   metadynamicsPotential_init harmonic (1/10) (1/10) 100 0 10 0 = Inl ZeroDivisionError \<and>
   (-5 :: int) < 0 \<and>
   metadynamicsPotential_init harmonic (1/10) (1/10) 100 0 10 (-5) = Inl ValueError"
  using construction_unvalidated[of 100 harmonic "1/10" "1/10" 100 0 10]
    construction_unvalidated[of 0 harmonic "1/10" "1/10" 100 0 10]
    construction_unvalidated[of "-5" harmonic "1/10" "1/10" 100 0 10]
  by simp

text \<open>
  The claim as written promises an error for a zero trigger interval, a negative kernel
  width and inverted bounds: the construction with all three returns an object. It
  promises \<open>InvalidRangeError\<close> for a zero bin count: the error is another one.
\<close>

theorem construction_validation_counterexample:
  "\<not> isl (metadynamicsPotential_init harmonic (1/10) (-1) 0 10 0 100) \<and>
   metadynamicsPotential_init harmonic (1/10) (1/10) 100 0 10 0 \<noteq> Inl InvalidRangeError"
  by (simp add: metadynamicsPotential_init_def Let_def)

text \<open>
  C5 (shapes of the read path). In every state an object can reach, \<open>ene\<close> and
  \<open>force\<close> accept a scalar without raising and return a scalar; \<open>ene\<close> accepts a
  sequence without raising and returns a sequence of the same length, except that
  a sequence of length one comes back as a scalar (the result is squeezed).
\<close>

theorem read_path_shapes:
  assumes "metadynamicsPotential_init origPotential A s n lo hi numbins = Inr self0"
    and "reachable G self0 self"
  shows "result_shape (ene self (Scalar x)) = Inr ScalarShape \<and>
     result_shape (force self (Scalar x)) = Inr ScalarShape \<and>
     result_shape (ene self (Seq xs)) =
       Inr (if length xs = 1 then ScalarShape else SeqShape (length xs))"
proof -
  have g0: "grid_ok self0" using assms(1) by (rule init_grid_ok)
  have g: "grid_ok self" using reachable_inv[OF assms(2) g0] by simp
  have "result_shape (ene self (Scalar x)) = Inr ScalarShape"
    by (simp add: ene_scalar_ok(2)[OF g] result_shape_def del: ene.simps)
  moreover have "result_shape (force self (Scalar x)) = Inr ScalarShape"
    by (simp add: force_scalar_ok[OF g] result_shape_def del: force.simps)
  ultimately show ?thesis using ene_seq_shape[OF g, of xs] by blast
qed

theorem read_path_shapes_witness:
  "metadynamicsPotential_init harmonic (1/10) (1/10) 3 0 10 4 = Inr example_self0 \<and>
   reachable gauss example_self0 example_self0 \<and>
   result_shape (ene example_self0 (Scalar 5)) = Inr ScalarShape \<and>
   result_shape (force example_self0 (Scalar 5)) = Inr ScalarShape \<and>
   result_shape (ene example_self0 (Seq [1, 5, 9])) = Inr (SeqShape 3) \<and>
   result_shape (ene example_self0 (Seq [5])) = Inr ScalarShape"
proof -
  have r: "reachable gauss example_self0 example_self0" by (rule reachable.constructed)
  note t = read_path_shapes[OF example_init r]
  show ?thesis using t[of 5 "[1, 5, 9]"] t[of 5 "[5]"] example_init r
    by (simp del: ene.simps force.simps)
qed

text \<open>
  The claim as written promises a sequence of length one for a sequence of length one,
  and promises that \<open>force\<close> takes sequences: \<open>ene\<close> returns a scalar for the
  one-element sequence, and \<open>force\<close> raises \<open>ValueError\<close> on a sequence of two
  positions.
\<close>

theorem read_path_shapes_counterexample:
  "result_shape (ene example_self0 (Seq [5])) = Inr ScalarShape \<and>
   result_shape (ene example_self0 (Seq [5])) \<noteq> Inr (SeqShape 1) \<and>
   force example_self0 (Seq [1, 2]) = Inl ValueError"
proof -
  have "grid_ok example_self0" using example_init by (rule init_grid_ok)
  then have "result_shape (ene example_self0 (Seq [5])) = Inr ScalarShape"
    using ene_seq_shape[of example_self0 "[5]"] by (simp del: ene.simps)
  moreover have "force example_self0 (Seq [1, 2]) = Inl ValueError" by simp
  ultimately show ?thesis by simp
qed

text \<open>
  C6 (out-of-range clamp). On the grid of an object whose construction returned, in
  every state the object can reach: a query at or below the lower end of the range is
  looked up in bin 0, a query above the upper end in the last bin
  \<open>numbins - 1\<close>, and neither \<open>ene\<close> nor \<open>force\<close> raises there. (The range is
  \<open>[min lo hi, max lo hi]\<close>, which is \<open>[lo, hi]\<close> for bounds in order.) In
  particular \<open>-1000\<close> and \<open>0\<close> on a grid bounded \<open>[0, 10]\<close> select the same bin.
\<close>

theorem out_of_range_clamp:
  assumes "metadynamicsPotential_init origPotential A s n lo hi numbins = Inr self0"
    and "reachable G self0 self"
  shows "(v \<le> min lo hi \<longrightarrow> find_nearest (bin_centers self) v = 0) \<and>
     (max lo hi < v \<longrightarrow> find_nearest (bin_centers self) v = nat numbins - 1) \<and>
     \<not> isl (ene self (Scalar v)) \<and> \<not> isl (force self (Scalar v))"
proof -
  have g0: "grid_ok self0" using assms(1) by (rule init_grid_ok)
  have inv: "grid_ok self" "bin_centers self = bin_centers self0"
    using reachable_inv[OF assms(2) g0] by simp_all
  have len: "length (bin_centers self0) = nat numbins"
    using assms(1) by (auto simp: init_Inr_iff length_linspace)
  have below: "find_nearest (bin_centers self0) v = 0" if "v \<le> min lo hi"
  proof (rule find_nearest_below_all, intro allI impI)
    fix j assume "j < length (bin_centers self0)"
    from init_center_between(1)[OF assms(1) this] that show "v \<le> bin_centers self0 ! j"
      by linarith
  qed
  have above: "find_nearest (bin_centers self0) v = nat numbins - 1" if "max lo hi < v"
  proof -
    have "\<forall>j<length (bin_centers self0). bin_centers self0 ! j < v"
    proof (intro allI impI)
      fix j assume "j < length (bin_centers self0)"
      from init_center_between(2)[OF assms(1) this] that show "bin_centers self0 ! j < v"
        by linarith
    qed
    then show ?thesis using find_nearest_above_all[of "bin_centers self0" v] len by simp
  qed
  have "\<not> isl (ene self (Scalar v))"
    by (simp add: ene_scalar_ok(2)[OF inv(1)] del: ene.simps)
  moreover have "\<not> isl (force self (Scalar v))"
    by (simp add: force_scalar_ok[OF inv(1)] del: force.simps)
  ultimately show ?thesis using below above by (simp only: inv(2)) blast
qed

theorem out_of_range_clamp_witness:
  "metadynamicsPotential_init harmonic (1/10) (1/10) 3 0 10 4 = Inr example_self0 \<and>
   reachable gauss example_self0 example_self0 \<and>
   find_nearest (bin_centers example_self0) (-1000) = 0 \<and>
   find_nearest (bin_centers example_self0) 0 = 0 \<and>
   find_nearest (bin_centers example_self0) 1000 = 3 \<and>
   \<not> isl (ene example_self0 (Scalar (-1000))) \<and>
   \<not> isl (force example_self0 (Scalar (-1000)))"
proof -
  have r: "reachable gauss example_self0 example_self0" by (rule reachable.constructed)
  note t = out_of_range_clamp[OF example_init r]
  have "find_nearest (bin_centers example_self0) (-1000) = 0" using t[of "-1000"] by simp
  moreover have "find_nearest (bin_centers example_self0) 0 = 0" using t[of 0] by simp
  moreover have "find_nearest (bin_centers example_self0) 1000 = 3" using t[of 1000] by simp
  moreover have "\<not> isl (ene example_self0 (Scalar (-1000)))"
    "\<not> isl (force example_self0 (Scalar (-1000)))" using t[of "-1000"] by blast+
  ultimately show ?thesis using example_init r by blast
qed

text \<open>
  C7 (additivity of deposition). From every state an object can reach, any sequence of
  depositions returns, and each grid afterwards is the grid before plus, elementwise
  over the bin centers, the sum of the kernels (for the force grid: of their
  derivatives) of the sequence: nothing is reset, scaled or removed. Started on the
  fresh object the grids are exactly these sums. Depositing the same positions in any
  other order gives the same object.
\<close>

theorem deposition_additive:
  assumes "metadynamicsPotential_init origPotential A s n lo hi numbins = Inr self0"
    and "reachable G self0 self"
  shows "\<exists>self'. deposit_all G self ps = Inr self' \<and>
       bias_grid_energy self' =
         map2 (+) (bias_grid_energy self)
           (map (\<lambda>c. \<Sum>p\<leftarrow>ps. calculate_energies (G A p s) c) (bin_centers self0)) \<and>
       bias_grid_force self' =
         map2 (+) (bias_grid_force self)
           (map (\<lambda>c. \<Sum>p\<leftarrow>ps. calculate_dVdpos (G A p s) c) (bin_centers self0)) \<and>
       (self = self0 \<longrightarrow>
          bias_grid_energy self' =
            map (\<lambda>c. \<Sum>p\<leftarrow>ps. calculate_energies (G A p s) c) (bin_centers self0) \<and>
          bias_grid_force self' =
            map (\<lambda>c. \<Sum>p\<leftarrow>ps. calculate_dVdpos (G A p s) c) (bin_centers self0)) \<and>
       (\<forall>qs. mset qs = mset ps \<longrightarrow> deposit_all G self qs = Inr self')"
proof -
  have g0: "grid_ok self0" using assms(1) by (rule init_grid_ok)
  have f0: "amplitude self0 = A" "sigma self0 = s"
    "bias_grid_energy self0 = replicate (length (bin_centers self0)) 0"
    "bias_grid_force self0 = replicate (length (bin_centers self0)) 0"
    using assms(1) by (auto simp: init_Inr_iff length_linspace)
  have inv: "grid_ok self" "bin_centers self = bin_centers self0"
    "amplitude self = A" "sigma self = s"
    using reachable_inv[OF assms(2) g0] f0 by simp_all
  have d: "deposit_all G self qs = Inr (with_deposits G self qs)" for qs
    using inv(1) by (rule deposit_all_ok)
  have e: "bias_grid_energy (with_deposits G self ps) =
         map2 (+) (bias_grid_energy self)
           (map (\<lambda>c. \<Sum>p\<leftarrow>ps. calculate_energies (G A p s) c) (bin_centers self0))"
    and f: "bias_grid_force (with_deposits G self ps) =
         map2 (+) (bias_grid_force self)
           (map (\<lambda>c. \<Sum>p\<leftarrow>ps. calculate_dVdpos (G A p s) c) (bin_centers self0))"
    by (simp_all add: inv)
  have z: "self = self0 \<longrightarrow>
          bias_grid_energy (with_deposits G self ps) =
            map (\<lambda>c. \<Sum>p\<leftarrow>ps. calculate_energies (G A p s) c) (bin_centers self0) \<and>
          bias_grid_force (with_deposits G self ps) =
            map (\<lambda>c. \<Sum>p\<leftarrow>ps. calculate_dVdpos (G A p s) c) (bin_centers self0)"
    by (simp add: f0 map2_add_replicate_zero)
  have m: "\<forall>qs. mset qs = mset ps \<longrightarrow> deposit_all G self qs = Inr (with_deposits G self ps)"
  proof (intro allI impI)
    fix qs :: "real list"
    assume "mset qs = mset ps"
    then have "with_deposits G self qs = with_deposits G self ps" by (rule with_deposits_mset)
    with d[of qs] show "deposit_all G self qs = Inr (with_deposits G self ps)" by simp
  qed
  show ?thesis
    using d[of ps] e f z m by (intro exI[of _ "with_deposits G self ps"] conjI)
qed

theorem deposition_additive_witness:
  "metadynamicsPotential_init harmonic (1/10) (1/10) 3 0 10 4 = Inr example_self0 \<and>
   reachable gauss example_self0 example_self0 \<and>
   (\<exists>self'. deposit_all gauss example_self0 [3, 6] = Inr self' \<and>
       bias_grid_energy self' =
         map (\<lambda>c. \<Sum>p\<leftarrow>[3, 6]. calculate_energies (gauss (1/10) p (1/10)) c)
           (bin_centers example_self0) \<and>
       bias_grid_force self' =
         map (\<lambda>c. \<Sum>p\<leftarrow>[3, 6]. calculate_dVdpos (gauss (1/10) p (1/10)) c)
           (bin_centers example_self0) \<and>
       deposit_all gauss example_self0 [6, 3] = Inr self')"
proof -
  have r: "reachable gauss example_self0 example_self0" by (rule reachable.constructed)
  have m: "mset [6, 3 :: real] = mset [3, 6]" by simp
  from deposition_additive[OF example_init r, of "[3, 6]"]
  obtain t where t: "deposit_all gauss example_self0 [3, 6] = Inr t"
    "example_self0 = example_self0 \<longrightarrow>
       bias_grid_energy t =
         map (\<lambda>c. \<Sum>p\<leftarrow>[3, 6]. calculate_energies (gauss (1/10) p (1/10)) c)
           (bin_centers example_self0) \<and>
       bias_grid_force t =
         map (\<lambda>c. \<Sum>p\<leftarrow>[3, 6]. calculate_dVdpos (gauss (1/10) p (1/10)) c)
           (bin_centers example_self0)"
    "\<forall>qs. mset qs = mset [3, 6] \<longrightarrow> deposit_all gauss example_self0 qs = Inr t"
    by blast
  from t(3) m have "deposit_all gauss example_self0 [6, 3] = Inr t" by blast
  with t(1,2) example_init r show ?thesis by blast
qed

text \<open>
  C8 (counter range). For \<open>n_trigger \<ge> 1\<close> the counter \<open>current_n\<close> is 1 after
  construction and lies in \<open>[1, n_trigger]\<close> in every state the object can reach. Every
  call of \<open>check_for_metastep\<close> from such a state returns; on the depositing branch it
  deposits, counts the deposition and sets the counter to 1, on the other branch it
  only adds 1 to the counter; the counter is 1 afterwards exactly when the call
  deposited, and it is in range again.
\<close>

theorem counter_range_invariant:
  assumes "metadynamicsPotential_init origPotential A s n lo hi numbins = Inr self0"
    and "1 \<le> n" and "reachable G self0 self"
  shows "current_n self0 = 1 \<and>
     1 \<le> current_n self \<and> current_n self \<le> n \<and>
     (\<exists>self'. check_for_metastep G self p = Inr self' \<and>
        (if metastep_due self
         then (\<exists>u. update_potential G self p = Inr u \<and>
                 self' = u\<lparr>finished_steps := finished_steps self + 1, current_n := 1\<rparr>)
         else self' = self\<lparr>current_n := current_n self + 1\<rparr>) \<and>
        (current_n self' = 1 \<longleftrightarrow> metastep_due self) \<and>
        1 \<le> current_n self' \<and> current_n self' \<le> n)"
proof -
  have g0: "grid_ok self0" using assms(1) by (rule init_grid_ok)
  have f0: "current_n self0 = 1" "n_trigger self0 = n"
    using assms(1) by (auto simp: init_Inr_iff)
  have inv: "grid_ok self" "n_trigger self = n"
    using reachable_inv[OF assms(3) g0] f0 by simp_all
  have c: "1 \<le> current_n self" "current_n self \<le> n_trigger self"
    using reachable_counter[OF assms(3) g0] f0 assms(2) inv by simp_all
  obtain t where t: "check_for_metastep G self p = Inr t"
     "if metastep_due self
      then t = (with_deposits G self [p])
                     \<lparr>finished_steps := finished_steps self + 1, current_n := 1\<rparr>
      else t = self\<lparr>current_n := current_n self + 1\<rparr>"
     "1 \<le> current_n t" "current_n t \<le> n_trigger self"
     "current_n t = 1 \<longleftrightarrow> metastep_due self"
    using check_for_metastep_counter[OF inv(1) c, of G p] by blast
  have "if metastep_due self
         then (\<exists>u. update_potential G self p = Inr u \<and>
                 t = u\<lparr>finished_steps := finished_steps self + 1, current_n := 1\<rparr>)
         else t = self\<lparr>current_n := current_n self + 1\<rparr>"
    using t(2) update_potential_with_deposits[OF inv(1), of G p] by (simp split: if_splits)
  with t c inv(2) f0(1) show ?thesis by blast
qed

theorem counter_range_invariant_witness:
  "metadynamicsPotential_init harmonic (1/10) (1/10) 3 0 10 4 = Inr example_self0 \<and>
   (1::int) \<le> 3 \<and> reachable gauss example_self0 example_self0 \<and>
   current_n example_self0 = 1 \<and>
   (\<exists>self'. check_for_metastep gauss example_self0 5 = Inr self' \<and>
      self' = example_self0\<lparr>current_n := 2\<rparr> \<and> current_n self' \<noteq> 1 \<and>
      \<not> metastep_due example_self0)"
proof -
  have r: "reachable gauss example_self0 example_self0" by (rule reachable.constructed)
  have nd: "\<not> metastep_due example_self0"
    by (simp add: metastep_due_def example_fields)
  from counter_range_invariant[OF example_init _ r, of 5] nd
  show ?thesis using example_init r by (auto simp: example_fields)
qed

text \<open>
  C9 (\<open>set_current_state\<close>). Provided the inherited \<open>_update_energies\<close> leaves the
  stored velocities and force alone, after every call of \<open>set_current_state\<close> the
  stored velocities equal the \<open>current_force\<close> argument, as the stored force and the
  velocity of the state tuple do, and the \<open>current_velocities\<close> argument has no
  effect on the resulting object.
\<close>

theorem set_current_state_velocities:
  assumes "\<And>sys. currentVelocities (update_energies sys) = currentVelocities sys"
    and "\<And>sys. currentForce (update_energies sys) = currentForce sys"
  shows "currentVelocities
       (set_current_state update_energies dvdlam self pos vel frc temp lmb dhdl) = frc \<and>
     currentForce
       (set_current_state update_energies dvdlam self pos vel frc temp lmb dhdl) = frc \<and>
     velocity (currentState
       (set_current_state update_energies dvdlam self pos vel frc temp lmb dhdl)) = frc \<and>
     set_current_state update_energies dvdlam self pos vel frc temp lmb dhdl =
       set_current_state update_energies dvdlam self pos vel' frc temp lmb dhdl"
  by (simp add: set_current_state_def update_dHdLambda_def update_current_state_def assms)

theorem set_current_state_velocities_witness:
  "currentVelocities
     (set_current_state example_update_energies example_dvdlam example_system 1 7 3 298 0 0) = 3 \<and>
   currentForce
     (set_current_state example_update_energies example_dvdlam example_system 1 7 3 298 0 0) = 3 \<and>
   velocity (currentState
     (set_current_state example_update_energies example_dvdlam example_system 1 7 3 298 0 0)) = 3 \<and>
   set_current_state example_update_energies example_dvdlam example_system 1 7 3 298 0 0 =
     set_current_state example_update_energies example_dvdlam example_system 1 0 3 298 0 0"
proof -
  have v: "currentVelocities (example_update_energies sys) = currentVelocities sys" for sys
    by (simp add: example_update_energies_def)
  have f: "currentForce (example_update_energies sys) = currentForce sys" for sys
    by (simp add: example_update_energies_def)
  show ?thesis
    by (rule set_current_state_velocities[OF v f, of example_dvdlam example_system 1 7 3 298 0 0 0])
qed

text \<open>
  C10 (\<open>_bias_baseclass\<close>). For every pair of arguments the constructor of
  \<open>_bias_baseclass\<close> raises \<open>NameError\<close>: it reads the bare name \<open>y_shift\<close>,
  which is neither a local of \<open>__init__\<close> nor a global of the module nor a builtin.
  No object of the class is ever constructed.
\<close>

theorem bias_baseclass_init_NameError: "bias_baseclass_init self_obj integrator_arg system_arg = Inl NameError"
  by (simp add: bias_baseclass_init_def load_name_def init_locals_def module_globals_def
      builtins_def)

end
